theory Spec2Isabelle
  imports Complex_Main
begin

section \<open>JavaScript values used by the encoder\<close>

text \<open>
  JavaScript numbers are IEEE doubles. Counts, byte sizes, timestamps (\<open>Date.now()\<close>) and
  the concurrency limit are integers, which doubles hold exactly below \<open>2^53\<close>: they are
  \<open>nat\<close> and \<open>int\<close>. A double that need not be an integer (an average, a ratio) is the
  rational number it denotes, and every arithmetic operation on such numbers rounds its
  exact result to the nearest double, ties to the even significand. The exponent range
  is not bounded here: the numbers the encoder computes stay far from overflow and from
  the subnormal range.
\<close>

text \<open>The number of binary digits of a natural number.\<close>

fun bits :: "nat \<Rightarrow> nat" where
  "bits n = (if n = 0 then 0 else Suc (bits (n div 2)))"

declare bits.simps [simp del]

definition pow2 :: "int \<Rightarrow> rat" where
  "pow2 e = (if 0 \<le> e then 2 ^ nat e else 1 / 2 ^ nat (- e))"

text \<open>For \<open>x > 0\<close>, the integer \<open>e\<close> with \<open>2^e \<le> x < 2^(e+1)\<close>.\<close>

definition ilog2 :: "rat \<Rightarrow> int" where
  "ilog2 x =
     (if 1 \<le> x then int (bits (nat \<lfloor>x\<rfloor>)) - 1
      else - int (bits (nat (\<lceil>1 / x\<rceil> - 1))))"

definition round_half_even :: "rat \<Rightarrow> int" where
  "round_half_even x =
     (let f = \<lfloor>x\<rfloor>; d = x - of_int f
      in if d < 1 / 2 then f else if 1 / 2 < d then f + 1 else if even f then f else f + 1)"

text \<open>The double nearest to \<open>x\<close>: 53 significant binary digits.\<close>

definition round_double :: "rat \<Rightarrow> rat" where
  "round_double x =
     (if x = 0 then 0
      else
        (let a = \<bar>x\<bar>;
             e = ilog2 a - 52;
             m = round_half_even (a / pow2 e)
         in sgn x * of_int m * pow2 e))"

text \<open>The operators \<open>*\<close>, \<open>+\<close> and \<open>/\<close> (by a number other than 0) on finite doubles.\<close>

definition dmul :: "rat \<Rightarrow> rat \<Rightarrow> rat" where
  "dmul a b = round_double (a * b)"

definition dadd :: "rat \<Rightarrow> rat \<Rightarrow> rat" where
  "dadd a b = round_double (a + b)"

definition ddiv :: "rat \<Rightarrow> rat \<Rightarrow> rat" where
  "ddiv a b = round_double (a / b)"

text \<open>A division whose divisor may be 0 keeps the three outcomes a JavaScript division
  can have besides a finite number.\<close>

datatype jsnum = Fin rat | PosInfinity | NegInfinity | NaN

definition js_div :: "rat \<Rightarrow> rat \<Rightarrow> jsnum" where
  "js_div a b =
     (if b = 0 then (if a = 0 then NaN else if 0 < a then PosInfinity else NegInfinity)
      else Fin (ddiv a b))"

text \<open>\<open>x || 0\<close> on a size that may be \<open>undefined\<close>.\<close>

definition or_zero :: "nat option \<Rightarrow> nat" where
  "or_zero x = (case x of None \<Rightarrow> 0 | Some n \<Rightarrow> n)"

text \<open>\<open>a / b\<close> on sizes that may be \<open>undefined\<close> (\<open>undefined\<close> coerces to NaN).\<close>

definition js_div_opt :: "nat option \<Rightarrow> nat option \<Rightarrow> jsnum" where
  "js_div_opt a b =
     (case a of None \<Rightarrow> NaN
      | Some x \<Rightarrow> (case b of None \<Rightarrow> NaN | Some y \<Rightarrow> js_div (of_nat x) (of_nat y)))"

text \<open>\<open>path.basename\<close> of Node.js for POSIX paths: the last component, trailing
  separators dropped.\<close>

definition basename :: "string \<Rightarrow> string" where
  "basename p =
     rev (takeWhile (\<lambda>c. c \<noteq> CHR ''/'') (dropWhile (\<lambda>c. c = CHR ''/'') (rev p)))"

section \<open>MetadataCache (lib/optimizations/modern-helpers.js)\<close>

text \<open>
  A JavaScript \<open>Map\<close> iterates in insertion order, so it is an association list:
  \<open>set\<close> on a present key replaces the value where it stands, \<open>set\<close> on a new key
  appends, \<open>delete\<close> removes the key.
\<close>

fun map_set :: "'k \<Rightarrow> 'v \<Rightarrow> ('k \<times> 'v) list \<Rightarrow> ('k \<times> 'v) list" where
  "map_set k v [] = [(k, v)]"
| "map_set k v (p # ps) = (if fst p = k then (k, v) # ps else p # map_set k v ps)"

definition map_delete :: "'k \<Rightarrow> ('k \<times> 'v) list \<Rightarrow> ('k \<times> 'v) list" where
  "map_delete k m = filter (\<lambda>p. fst p \<noteq> k) m"

definition map_has :: "'k \<Rightarrow> ('k \<times> 'v) list \<Rightarrow> bool" where
  "map_has k m = (map_of m k \<noteq> None)"

text \<open>The result of \<open>fs.stat\<close>: the two fields the cache reads.\<close>

record stats =
  mtime :: int
  size_stat :: nat

text \<open>
  The cache key is the string \<open>`${filePath}:${mtime}:${size}`\<close>. The two numerals hold
  no colon, so the string determines the three parts; the key is kept as the triple.
\<close>

type_synonym cache_key = "string \<times> int \<times> nat"

definition cacheKey :: "string \<Rightarrow> stats \<Rightarrow> cache_key" where
  "cacheKey filePath st = (filePath, mtime st, size_stat st)"

record 'm metadata_cache =
  cache :: "(cache_key \<times> 'm) list"
  maxSize :: int

definition new_cache :: "int option \<Rightarrow> 'm metadata_cache" where
  "new_cache ms = \<lparr>cache = [], maxSize = (case ms of None \<Rightarrow> 100 | Some n \<Rightarrow> n)\<rparr>"

text \<open>\<open>get(filePath)\<close>; the stat result is \<open>None\<close> when \<open>fs.stat\<close> throws.\<close>

definition cache_get ::
  "string \<Rightarrow> stats option \<Rightarrow> 'm metadata_cache \<Rightarrow> 'm option \<times> 'm metadata_cache" where
  "cache_get filePath st c =
     (case st of
        None \<Rightarrow> (None, c)
      | Some stt \<Rightarrow>
          (let k = cacheKey filePath stt in
           if map_has k (cache c) then
             (case map_of (cache c) k of
                Some v \<Rightarrow> (Some v, c\<lparr>cache := map_set k v (map_delete k (cache c))\<rparr>)
              | None \<Rightarrow> (None, c))
           else (None, c)))"

text \<open>\<open>set(filePath, metadata)\<close>: the eviction comes first, outside the \<open>try\<close>.\<close>

definition evict_oldest :: "'m metadata_cache \<Rightarrow> 'm metadata_cache" where
  "evict_oldest c =
     (if maxSize c \<le> int (length (cache c)) then
        (case cache c of [] \<Rightarrow> c | p # ps \<Rightarrow> c\<lparr>cache := map_delete (fst p) (cache c)\<rparr>)
      else c)"

definition cache_set ::
  "string \<Rightarrow> stats option \<Rightarrow> 'm \<Rightarrow> 'm metadata_cache \<Rightarrow> 'm metadata_cache" where
  "cache_set filePath st metadata c =
     (let c1 = evict_oldest c in
      case st of
        None \<Rightarrow> c1
      | Some stt \<Rightarrow> c1\<lparr>cache := map_set (cacheKey filePath stt) metadata (cache c1)\<rparr>)"

definition cache_clear :: "'m metadata_cache \<Rightarrow> 'm metadata_cache" where
  "cache_clear c = c\<lparr>cache := []\<rparr>"

datatype 'm cache_op =
    CGet string "stats option"
  | CSet string "stats option" 'm
  | CClear

fun cache_step :: "'m metadata_cache \<Rightarrow> 'm cache_op \<Rightarrow> 'm metadata_cache" where
  "cache_step c (CGet p st) = snd (cache_get p st c)"
| "cache_step c (CSet p st m) = cache_set p st m c"
| "cache_step c CClear = cache_clear c"

definition cache_run :: "'m metadata_cache \<Rightarrow> 'm cache_op list \<Rightarrow> 'm metadata_cache" where
  "cache_run c ops = foldl cache_step c ops"

section \<open>OptimizedEncoder: data\<close>

text \<open>
  A \<open>Video\<close> object. The class lives in \<open>video.js\<close>; the encoder reads its \<open>path\<close>
  and passes it the two options below. \<open>vid\<close> is the identity of the object: the
  number of \<open>Video\<close> objects constructed before it.
\<close>

record video =
  vid :: nat
  path :: string
  hwAccel :: "string list"
  enableCache :: bool

text \<open>
  The entries pushed on \<open>finishedVideos\<close> and \<open>failedVideos\<close>. \<open>fe_job\<close> and
  \<open>fl_job\<close> name the \<open>Video\<close> object the entry was made from; the JavaScript entry
  holds only its path, the identity is kept to say which job an entry records.
  \<open>fl_error\<close> is \<open>error.message\<close>, which is \<open>undefined\<close> (\<open>None\<close>) when the caught value
  has no such property.
\<close>

record finished_entry =
  fe_job :: nat
  fe_path :: string
  fe_processingTime :: int
  fe_inputSize :: "nat option"
  fe_outputSize :: "nat option"
  fe_compressionRatio :: jsnum

record failed_entry =
  fl_job :: nat
  fl_path :: string
  fl_base :: string
  fl_error :: "string option"
  fl_timestamp :: int
  fl_stage :: string

record metrics =
  startTime :: "int option"
  totalFilesProcessed :: nat
  totalBytesProcessed :: nat
  averageProcessingTime :: rat
  memoryUsage_peak :: nat
  memoryUsage_current :: nat

text \<open>
  The fields of the encoder, and the parts of the runtime the methods leave behind
  when they suspend: \<open>awaiting\<close> holds the activations of \<open>processVideo\<close> suspended at
  \<open>await video.process()\<close> with their local \<open>startTime\<close>, \<open>stopping\<close> counts the
  activations of \<open>stop\<close> suspended at \<open>await Promise.allSettled\<close>, \<open>admitting\<close> holds the
  activations of \<open>addVideo\<close> suspended at \<open>await fs.access\<close>, each with the number of
  its call and its path, and \<open>allocated\<close> counts the \<open>Video\<close> objects constructed.
  Three fields are history: \<open>calls\<close> counts the calls of \<open>addVideo\<close> made so far,
  \<open>admitted\<close> lists, for the videos in the order of their construction, the number of the
  call that constructed each, and \<open>launched\<close> lists the calls \<open>processVideo(video)\<close> made
  by the dispatch loop, in order. \<open>performanceInterval\<close> says whether the monitor's timer
  is armed.
\<close>

record encoder =
  queue :: "video list"
  currentlyProcessing :: "video list"
  failedVideos :: "failed_entry list"
  finishedVideos :: "finished_entry list"
  maxConcurrentJobs :: int
  enableMetadataCache :: bool
  enableProgressReporting :: bool
  memoryThreshold :: nat
  supportedHWAccel :: "string list"
  running :: bool
  paused :: bool
  shuttingDown :: bool
  metrics :: metrics
  performanceInterval :: bool
  awaiting :: "(video \<times> int) list"
  stopping :: nat
  allocated :: nat
  launched :: "video list"
  admitting :: "(nat \<times> string) list"
  calls :: nat
  admitted :: "nat list"

record options =
  opt_maxConcurrentJobs :: "int option"
  opt_enableMetadataCache :: "bool option"
  opt_enableProgressReporting :: "bool option"
  opt_memoryThreshold :: "nat option"

datatype error = AccessError | AlreadyRunning | NotRunningOrPaused | NotPaused | TypeError

text \<open>The value a rejected \<open>video.process()\<close> is caught with: \<open>null\<close> or \<open>undefined\<close>, or
  any other value, with its \<open>message\<close> property (\<open>None\<close> when it has none).\<close>

datatype caught = Nullish | Thrown "string option"

text \<open>\<open>Set.prototype.add\<close> and \<open>delete\<close> on an insertion-ordered set.\<close>

definition set_add :: "'a \<Rightarrow> 'a list \<Rightarrow> 'a list" where
  "set_add x xs = (if x \<in> set xs then xs else xs @ [x])"

definition set_delete :: "'a \<Rightarrow> 'a list \<Rightarrow> 'a list" where
  "set_delete x xs = removeAll x xs"

section \<open>OptimizedEncoder: methods\<close>

text \<open>The constructor; \<open>cpus\<close> is \<open>os.cpus().length\<close>. \<open>a || b\<close> takes \<open>b\<close> when
  \<open>a\<close> is \<open>undefined\<close> or 0; \<open>a !== false\<close> is true unless \<open>a\<close> is \<open>false\<close>.\<close>

definition new_encoder :: "nat \<Rightarrow> options \<Rightarrow> encoder" where
  "new_encoder cpus opts =
     (let progress = (opt_enableProgressReporting opts \<noteq> Some False) in
      \<lparr>queue = [], currentlyProcessing = [], failedVideos = [], finishedVideos = [],
       maxConcurrentJobs =
         (case opt_maxConcurrentJobs opts of
            None \<Rightarrow> int (min cpus 4)
          | Some n \<Rightarrow> if n = 0 then int (min cpus 4) else n),
       enableMetadataCache = (opt_enableMetadataCache opts \<noteq> Some False),
       enableProgressReporting = progress,
       memoryThreshold =
         (case opt_memoryThreshold opts of
            None \<Rightarrow> 1024 * 1024 * 1024
          | Some n \<Rightarrow> if n = 0 then 1024 * 1024 * 1024 else n),
       supportedHWAccel = [],
       running = False, paused = False, shuttingDown = False,
       metrics = \<lparr>startTime = None, totalFilesProcessed = 0, totalBytesProcessed = 0,
                  averageProcessingTime = 0, memoryUsage_peak = 0, memoryUsage_current = 0\<rparr>,
       performanceInterval = progress,
       awaiting = [], stopping = 0, allocated = 0, launched = [],
       admitting = [], calls = 0, admitted = []\<rparr>)"

definition updateMetrics :: "nat \<Rightarrow> encoder \<Rightarrow> encoder" where
  "updateMetrics heapUsed s =
     s\<lparr>metrics := (metrics s)
         \<lparr>memoryUsage_current := heapUsed,
          memoryUsage_peak :=
            (if memoryUsage_peak (metrics s) < heapUsed then heapUsed
             else memoryUsage_peak (metrics s))\<rparr>\<rparr>"

definition checkMemoryUsage :: "nat \<Rightarrow> encoder \<Rightarrow> encoder" where
  "checkMemoryUsage heapUsed s =
     (if memoryThreshold s < heapUsed then
        (if 1 < maxConcurrentJobs s
         then s\<lparr>maxConcurrentJobs := max 1 (maxConcurrentJobs s - 1)\<rparr>
         else s)
      else s)"

text \<open>\<open>addVideo(videoPath)\<close> from the outcome of \<open>await fs.access\<close> on; \<open>readable\<close> is
  that outcome. The error is logged and thrown again; the wake-up of the dispatch loop is
  a later \<open>ProcessQueue\<close> event.\<close>

definition addVideo :: "string \<Rightarrow> bool \<Rightarrow> encoder \<Rightarrow> (error + video) \<times> encoder" where
  "addVideo videoPath readable s =
     (if \<not> readable then (Inl AccessError, s)
      else
        (let v = \<lparr>vid = allocated s, path = videoPath,
                  hwAccel = supportedHWAccel s, enableCache = enableMetadataCache s\<rparr>
         in (Inr v, s\<lparr>queue := queue s @ [v], allocated := Suc (allocated s)\<rparr>)))"

text \<open>\<open>processVideo(video)\<close> up to \<open>await video.process()\<close>.\<close>

definition processVideo_begin :: "int \<Rightarrow> video \<Rightarrow> encoder \<Rightarrow> encoder" where
  "processVideo_begin now v s =
     s\<lparr>currentlyProcessing := set_add v (currentlyProcessing s),
       awaiting := awaiting s @ [(v, now)],
       launched := launched s @ [v]\<rparr>"

definition updateProcessingMetrics :: "nat option \<Rightarrow> int \<Rightarrow> encoder \<Rightarrow> encoder" where
  "updateProcessingMetrics inputSize processingTime s =
     (let m = metrics s;
          count = Suc (totalFilesProcessed m);
          currentAverage = averageProcessingTime m
      in s\<lparr>metrics := m
            \<lparr>totalFilesProcessed := count,
             totalBytesProcessed := totalBytesProcessed m + or_zero inputSize,
             averageProcessingTime :=
               ddiv (dadd (dmul currentAverage (of_nat count - 1)) (of_int processingTime))
                 (of_nat count)\<rparr>\<rparr>)"

text \<open>\<open>video.currentStage?.name || 'Unknown'\<close>.\<close>

definition stage_name :: "string option \<Rightarrow> string" where
  "stage_name st = (case st of None \<Rightarrow> ''Unknown'' | Some n \<Rightarrow> if n = [] then ''Unknown'' else n)"

text \<open>\<open>handleVideoError(video, error)\<close>. Its first statement reads \<open>error.message\<close>,
  which throws a \<open>TypeError\<close> when \<open>error\<close> is \<open>null\<close> or \<open>undefined\<close>: nothing is pushed
  then.\<close>

definition handleVideoError ::
  "video \<Rightarrow> caught \<Rightarrow> int \<Rightarrow> string option \<Rightarrow> encoder \<Rightarrow> error + encoder" where
  "handleVideoError v err now st s =
     (case err of
        Nullish \<Rightarrow> Inl TypeError
      | Thrown message \<Rightarrow>
          Inr (s\<lparr>failedVideos := failedVideos s @
                 [\<lparr>fl_job = vid v, fl_path = path v, fl_base = basename (path v),
                   fl_error = message, fl_timestamp = now, fl_stage = stage_name st\<rparr>]\<rparr>))"

text \<open>The \<open>finally\<close> block of \<open>processVideo\<close>; the activation ends with it.\<close>

definition processVideo_finally :: "video \<Rightarrow> encoder \<Rightarrow> encoder" where
  "processVideo_finally v s =
     s\<lparr>currentlyProcessing := set_delete v (currentlyProcessing s),
       awaiting := filter (\<lambda>a. fst a \<noteq> v) (awaiting s)\<rparr>"

definition find_awaiting :: "nat \<Rightarrow> encoder \<Rightarrow> (video \<times> int) option" where
  "find_awaiting j s = find (\<lambda>a. vid (fst a) = j) (awaiting s)"

text \<open>\<open>video.process()\<close> of job \<open>j\<close> resolves at time \<open>now\<close>, the video then holding
  the two sizes: the success path of \<open>processVideo\<close> and its \<open>finally\<close>.\<close>

definition process_resolved :: "nat \<Rightarrow> int \<Rightarrow> nat option \<Rightarrow> nat option \<Rightarrow> encoder \<Rightarrow> encoder" where
  "process_resolved j now inputSize outputSize s =
     (case find_awaiting j s of
        None \<Rightarrow> s
      | Some (v, startTime0) \<Rightarrow>
          (let processingTime = now - startTime0;
               s1 = updateProcessingMetrics inputSize processingTime s;
               s2 = s1\<lparr>finishedVideos := finishedVideos s1 @
                      [\<lparr>fe_job = vid v, fe_path = path v, fe_processingTime = processingTime,
                        fe_inputSize = inputSize, fe_outputSize = outputSize,
                        fe_compressionRatio = js_div_opt outputSize inputSize\<rparr>]\<rparr>
           in processVideo_finally v s2))"

text \<open>\<open>video.process()\<close> of job \<open>j\<close> rejects with the value \<open>err\<close>: the \<open>catch\<close> path and
  the \<open>finally\<close>. When \<open>handleVideoError\<close> throws, the \<open>finally\<close> block still runs, and
  the \<open>TypeError\<close> goes to the \<open>catch\<close> of the dispatch loop, which logs it.\<close>

definition process_rejected :: "nat \<Rightarrow> int \<Rightarrow> caught \<Rightarrow> string option \<Rightarrow> encoder \<Rightarrow> encoder" where
  "process_rejected j now err st s =
     (case find_awaiting j s of
        None \<Rightarrow> s
      | Some (v, startTime0) \<Rightarrow>
          (case handleVideoError v err now st s of
             Inl e \<Rightarrow> processVideo_finally v s
           | Inr s1 \<Rightarrow> processVideo_finally v s1))"

definition cleanup :: "encoder \<Rightarrow> encoder" where
  "cleanup s = (if performanceInterval s then s\<lparr>performanceInterval := False\<rparr> else s)"

text \<open>What \<open>finish\<close> logs and emits. The summary block is logged only when there is a
  finished video; the \<open>finished\<close> event is always emitted.\<close>

record summary =
  sm_files :: nat
  sm_totalTime :: int
  sm_averageTime :: rat
  sm_totalInputSize :: nat
  sm_totalOutputSize :: nat
  sm_avgCompressionRatio :: jsnum
  sm_spaceSaved :: int
  sm_peakMemory :: nat

record finish_report =
  fr_summary :: "summary option"
  fr_failedLines :: "(string \<times> string option) list"
  fr_processed :: nat
  fr_failed :: nat
  fr_totalTime :: int
  fr_metrics :: metrics

definition finish :: "int \<Rightarrow> encoder \<Rightarrow> finish_report \<times> encoder" where
  "finish now s =
     (let totalTime = now - (case startTime (metrics s) of None \<Rightarrow> 0 | Some t \<Rightarrow> t);
          sm =
            (if 0 < length (finishedVideos s) then
               (let totalInputSize = foldl (\<lambda>sum v. sum + or_zero (fe_inputSize v)) 0 (finishedVideos s);
                    totalOutputSize = foldl (\<lambda>sum v. sum + or_zero (fe_outputSize v)) 0 (finishedVideos s);
                    avgCompressionRatio = js_div (of_nat totalOutputSize) (of_nat totalInputSize)
                in Some \<lparr>sm_files = length (finishedVideos s), sm_totalTime = totalTime,
                         sm_averageTime = averageProcessingTime (metrics s),
                         sm_totalInputSize = totalInputSize, sm_totalOutputSize = totalOutputSize,
                         sm_avgCompressionRatio = avgCompressionRatio,
                         sm_spaceSaved = int totalInputSize - int totalOutputSize,
                         sm_peakMemory = memoryUsage_peak (metrics s)\<rparr>)
             else None);
          s' = cleanup (s\<lparr>running := False\<rparr>)
      in (\<lparr>fr_summary = sm,
           fr_failedLines = map (\<lambda>f. (fl_base f, fl_error f)) (failedVideos s),
           fr_processed = length (finishedVideos s), fr_failed = length (failedVideos s),
           fr_totalTime = totalTime, fr_metrics = metrics s\<rparr>, s'))"

text \<open>\<open>processQueue()\<close> from its entry, or from the end of its one-second sleep, to
  its next \<open>await\<close>: it launches videos while there is headroom and work, then either
  finishes, or sleeps, or leaves the loop.\<close>

function processQueue :: "int \<Rightarrow> encoder \<Rightarrow> encoder" where
  "processQueue now s =
     (if running s \<and> \<not> paused s \<and> \<not> shuttingDown s then
        (if maxConcurrentJobs s \<le> int (length (currentlyProcessing s)) \<or> length (queue s) = 0 then
           (if length (queue s) = 0 \<and> length (currentlyProcessing s) = 0
            then snd (finish now s) else s)
         else
           (case queue s of
              [] \<Rightarrow> s
            | v # rest \<Rightarrow> processQueue now (processVideo_begin now v (s\<lparr>queue := rest\<rparr>))))
      else s)"
  by pat_completeness auto
termination
  by (relation "measure (\<lambda>(now, s). length (queue s))") (auto simp: processVideo_begin_def)

declare processQueue.simps [simp del]

definition start :: "int \<Rightarrow> encoder \<Rightarrow> (error + unit) \<times> encoder" where
  "start now s =
     (if running s then (Inl AlreadyRunning, s)
      else (Inr (),
            processQueue now
              (s\<lparr>running := True, paused := False, shuttingDown := False,
                 metrics := (metrics s)\<lparr>startTime := Some now\<rparr>\<rparr>)))"

text \<open>\<open>pause()\<close> and \<open>resume()\<close>. The calls of \<open>video.pause()\<close> and \<open>video.resume()\<close>
  leave the encoder's fields alone; the loop that \<open>resume\<close> enters after them is a
  later \<open>ProcessQueue\<close> event.\<close>

definition pause :: "encoder \<Rightarrow> (error + unit) \<times> encoder" where
  "pause s =
     (if \<not> running s \<or> paused s then (Inl NotRunningOrPaused, s)
      else (Inr (), s\<lparr>paused := True\<rparr>))"

definition resume :: "encoder \<Rightarrow> (error + unit) \<times> encoder" where
  "resume s =
     (if \<not> paused s then (Inl NotPaused, s)
      else (Inr (), s\<lparr>paused := False\<rparr>))"

text \<open>\<open>stop()\<close> in its two halves, before and after \<open>await Promise.allSettled\<close>, and
  the call that nothing interrupts.\<close>

definition stop_begin :: "encoder \<Rightarrow> encoder" where
  "stop_begin s =
     (if \<not> running s then s
      else s\<lparr>shuttingDown := True, stopping := Suc (stopping s)\<rparr>)"

definition stop_end :: "encoder \<Rightarrow> encoder" where
  "stop_end s =
     (if stopping s = 0 then s
      else cleanup (s\<lparr>running := False, paused := False, currentlyProcessing := [],
                      stopping := stopping s - 1\<rparr>))"

definition stop :: "encoder \<Rightarrow> encoder" where
  "stop s = (if \<not> running s then s else stop_end (stop_begin s))"

section \<open>Runs of the encoder\<close>

text \<open>The call \<open>addVideo(videoPath)\<close> up to \<open>await fs.access\<close>, and the continuation
  of that \<open>await\<close> for the call number \<open>k\<close>.\<close>

definition addVideo_call :: "string \<Rightarrow> encoder \<Rightarrow> encoder" where
  "addVideo_call videoPath s =
     s\<lparr>admitting := admitting s @ [(calls s, videoPath)], calls := Suc (calls s)\<rparr>"

definition addVideo_accessed :: "nat \<Rightarrow> bool \<Rightarrow> encoder \<Rightarrow> encoder" where
  "addVideo_accessed k readable s =
     (case find (\<lambda>c. fst c = k) (admitting s) of
        None \<Rightarrow> s
      | Some (k', videoPath) \<Rightarrow>
          (let s1 = s\<lparr>admitting := filter (\<lambda>c. fst c \<noteq> k) (admitting s)\<rparr>
           in case fst (addVideo videoPath readable s1) of
                Inl e \<Rightarrow> s1
              | Inr v \<Rightarrow> (snd (addVideo videoPath readable s1))\<lparr>admitted := admitted s1 @ [k]\<rparr>))"

text \<open>One event is one uninterrupted piece of JavaScript: a method call up to its
  first \<open>await\<close>, the continuation of an \<open>await\<close>, or a tick of the monitor's timer
  (which samples the heap twice, in \<open>updateMetrics\<close> and in \<open>checkMemoryUsage\<close>).
  \<open>AddVideo\<close> is a call of \<open>addVideo\<close> whose access check returns before anything else
  runs; \<open>AddVideoCall\<close> and \<open>Accessed\<close> are the two halves of a call that other events
  may overlap.\<close>

datatype event =
    AddVideo string bool
  | AddVideoCall string
  | Accessed nat bool
  | Start int
  | ProcessQueue int
  | Resolved nat int "nat option" "nat option"
  | Rejected nat int caught "string option"
  | Pause
  | Resume
  | StopBegin
  | StopEnd
  | Tick nat nat

fun step :: "encoder \<Rightarrow> event \<Rightarrow> encoder" where
  "step s (AddVideo p readable) = addVideo_accessed (calls s) readable (addVideo_call p s)"
| "step s (AddVideoCall p) = addVideo_call p s"
| "step s (Accessed k readable) = addVideo_accessed k readable s"
| "step s (Start now) = snd (start now s)"
| "step s (ProcessQueue now) = processQueue now s"
| "step s (Resolved j now i outp) = process_resolved j now i outp s"
| "step s (Rejected j now err st) = process_rejected j now err st s"
| "step s Pause = snd (pause s)"
| "step s Resume = snd (resume s)"
| "step s StopBegin = stop_begin s"
| "step s StopEnd = stop_end s"
| "step s (Tick h1 h2) =
     (if performanceInterval s then checkMemoryUsage h2 (updateMetrics h1 s) else s)"

definition run :: "encoder \<Rightarrow> event list \<Rightarrow> encoder" where
  "run s evs = foldl step s evs"


section \<open>Notions used to state the properties\<close>

text \<open>
  The five run states of the specification. The encoder has no such field: it keeps
  the three flags \<open>running\<close>, \<open>paused\<close> and \<open>shuttingDown\<close>. \<open>spec_runState\<close> reads the
  specification's state off them: an encoder that is not running is \<open>Idle\<close> until its
  first \<open>start()\<close> (the start time is still \<open>null\<close>) and \<open>Finished\<close> after it.
\<close>

datatype run_state = Idle | Running | Paused | ShuttingDown | Finished

definition spec_runState :: "encoder \<Rightarrow> run_state" where
  "spec_runState s =
     (if running s then
        (if shuttingDown s then ShuttingDown else if paused s then Paused else Running)
      else if startTime (metrics s) = None then Idle else Finished)"

text \<open>How many places own job \<open>j\<close>: its occurrences in the pending queue, in the
  in-flight set, in the finished list and in the failed list.\<close>

definition owners :: "nat \<Rightarrow> encoder \<Rightarrow> nat" where
  "owners j s =
     count_list (map vid (queue s)) j + count_list (map vid (currentlyProcessing s)) j +
     count_list (map fe_job (finishedVideos s)) j + count_list (map fl_job (failedVideos s)) j"

text \<open>Every job that was ever created, by where the runtime holds it: queued, held by
  a suspended \<open>processVideo\<close>, or recorded.\<close>

definition job_ids :: "encoder \<Rightarrow> nat list" where
  "job_ids s =
     map vid (queue s) @ map (\<lambda>a. vid (fst a)) (awaiting s) @
     map fe_job (finishedVideos s) @ map fl_job (failedVideos s)"

definition encoder_inv :: "encoder \<Rightarrow> bool" where
  "encoder_inv s \<longleftrightarrow>
     distinct (job_ids s) \<and> set (job_ids s) \<subseteq> {..<allocated s} \<and>
     distinct (currentlyProcessing s) \<and>
     set (currentlyProcessing s) \<subseteq> set (map fst (awaiting s))"



text \<open>The half of a call of \<open>addVideo\<close> that other events may overlap.\<close>

fun overlapped :: "event \<Rightarrow> bool" where
  "overlapped (AddVideoCall p) = True"
| "overlapped (Accessed k readable) = True"
| "overlapped e = False"

text \<open>Every video was constructed by a call already made, and the suspended calls are
  calls already made, each once.\<close>

definition admission_inv :: "encoder \<Rightarrow> bool" where
  "admission_inv s \<longleftrightarrow>
     length (admitted s) = allocated s \<and> (\<forall>k\<in>set (admitted s). k < calls s) \<and>
     (\<forall>c\<in>set (admitting s). fst c < calls s)"

text \<open>No call is suspended, and the videos were constructed in the order of their
  calls.\<close>

definition in_call_order :: "encoder \<Rightarrow> bool" where
  "in_call_order s \<longleftrightarrow> admitting s = [] \<and> sorted_wrt (<) (admitted s)"

text \<open>The launches made so far, followed by the pending queue, are the jobs in the
  order of their creation.\<close>

definition fifo_inv :: "encoder \<Rightarrow> bool" where
  "fifo_inv s \<longleftrightarrow> map vid (launched s @ queue s) = [0..<allocated s]"

text \<open>
  The average after a history of processing times. \<open>average_step\<close> is the update of
  \<open>updateProcessingMetrics\<close> on the pair of the average and the count, in doubles as the
  code computes it; \<open>exact_step\<close> is the same formula over exact arithmetic, as the
  specification reads it. \<open>stored_average\<close> and \<open>exact_average\<close> run them over a history,
  from the average 0 and the count 0 of a new encoder.
\<close>

fun average_step :: "rat \<times> nat \<Rightarrow> int \<Rightarrow> rat \<times> nat" where
  "average_step (currentAverage, n) processingTime =
     (ddiv (dadd (dmul currentAverage (of_nat (Suc n) - 1)) (of_int processingTime))
        (of_nat (Suc n)), Suc n)"

fun exact_step :: "rat \<times> nat \<Rightarrow> int \<Rightarrow> rat \<times> nat" where
  "exact_step (currentAverage, n) processingTime =
     (((currentAverage * (of_nat (Suc n) - 1)) + of_int processingTime) / of_nat (Suc n), Suc n)"

definition stored_average :: "int list \<Rightarrow> rat" where
  "stored_average xs = fst (foldl average_step (0, 0) xs)"

definition exact_average :: "int list \<Rightarrow> rat" where
  "exact_average xs = fst (foldl exact_step (0, 0) xs)"

text \<open>The stored average and count are those of the history of the finished videos.\<close>

definition metrics_inv :: "encoder \<Rightarrow> bool" where
  "metrics_inv s \<longleftrightarrow>
     (averageProcessingTime (metrics s), totalFilesProcessed (metrics s)) =
       foldl average_step (0, 0) (map fe_processingTime (finishedVideos s))"

text \<open>The cache is within its capacity and holds each key once.\<close>

definition cache_ok :: "'m metadata_cache \<Rightarrow> bool" where
  "cache_ok c \<longleftrightarrow> int (length (cache c)) \<le> maxSize c \<and> distinct (map fst (cache c))"

text \<open>Encoders, runs and caches used as examples.\<close>

definition no_options :: options where
  "no_options = \<lparr>opt_maxConcurrentJobs = None, opt_enableMetadataCache = None,
                  opt_enableProgressReporting = None, opt_memoryThreshold = None\<rparr>"

definition two_jobs_options :: options where
  "two_jobs_options = no_options\<lparr>opt_maxConcurrentJobs := Some 2\<rparr>"

definition one_in_flight :: encoder where
  "one_in_flight = run (new_encoder 8 no_options) [AddVideo ''a.mkv'' True, Start 10]"

definition two_in_flight :: encoder where
  "two_in_flight =
     run (new_encoder 8 two_jobs_options)
       [AddVideo ''a.mkv'' True, AddVideo ''b.mkv'' True, Start 10]"

definition finished_encoder :: encoder where
  "finished_encoder = snd (start 10 (new_encoder 8 no_options))"

definition throttled :: encoder where
  "throttled = step two_in_flight (Tick 0 2000000000)"

definition stopped_encoder :: encoder where
  "stopped_encoder =
     run (new_encoder 8 no_options) [AddVideo ''a.mkv'' True, Start 10, StopBegin, StopEnd]"

definition two_done :: encoder where
  "two_done =
     run (new_encoder 8 two_jobs_options)
       [AddVideo ''a.mkv'' True, AddVideo ''b.mkv'' True, Start 10,
        Resolved 0 40 (Some 100) (Some 50), Resolved 1 70 (Some 200) (Some 100)]"

definition overlapped_calls :: encoder where
  "overlapped_calls =
     run (new_encoder 8 no_options)
       [AddVideoCall ''a.mkv'', AddVideoCall ''b.mkv'', Accessed 1 True, Accessed 0 True,
        Start 10]"

definition dropped_job :: encoder where
  "dropped_job =
     run (new_encoder 8 no_options)
       [AddVideo ''a.mkv'' True, Start 10, Rejected 0 20 Nullish None]"

definition eight_times :: "int list" where
  "eight_times = [3, 7, 1, 7, 3, 5, 3, 1]"

definition one_job_options :: options where
  "one_job_options = no_options\<lparr>opt_maxConcurrentJobs := Some 1\<rparr>"

text \<open>Eight files encoded one after the other, taking the times above.\<close>

definition eight_events :: "event list" where
  "eight_events =
     [AddVideo ''a.mkv'' True, AddVideo ''b.mkv'' True, AddVideo ''c.mkv'' True,
      AddVideo ''d.mkv'' True, AddVideo ''e.mkv'' True, AddVideo ''f.mkv'' True,
      AddVideo ''g.mkv'' True, AddVideo ''h.mkv'' True, Start 0,
      Resolved 0 3 None None, ProcessQueue 3, Resolved 1 10 None None, ProcessQueue 10,
      Resolved 2 11 None None, ProcessQueue 11, Resolved 3 18 None None, ProcessQueue 18,
      Resolved 4 21 None None, ProcessQueue 21, Resolved 5 26 None None, ProcessQueue 26,
      Resolved 6 29 None None, ProcessQueue 29, Resolved 7 30 None None]"

definition eight_done :: encoder where
  "eight_done = run (new_encoder 8 one_job_options) eight_events"

definition example_stats :: stats where
  "example_stats = \<lparr>mtime = 1700000000000, size_stat = 4096\<rparr>"

definition full_cache :: "nat metadata_cache" where
  "full_cache =
     cache_run (new_cache (Some 2))
       [CSet ''a.mkv'' (Some example_stats) 1, CSet ''b.mkv'' (Some example_stats) 2]"

section \<open>Helper lemmas: what each method leaves alone\<close>

lemma cleanup_fields [simp]:
  "queue (cleanup s) = queue s"
  "currentlyProcessing (cleanup s) = currentlyProcessing s"
  "failedVideos (cleanup s) = failedVideos s"
  "finishedVideos (cleanup s) = finishedVideos s"
  "maxConcurrentJobs (cleanup s) = maxConcurrentJobs s"
  "running (cleanup s) = running s"
  "paused (cleanup s) = paused s"
  "shuttingDown (cleanup s) = shuttingDown s"
  "metrics (cleanup s) = metrics s"
  "awaiting (cleanup s) = awaiting s"
  "stopping (cleanup s) = stopping s"
  "allocated (cleanup s) = allocated s"
  "launched (cleanup s) = launched s"
  "memoryThreshold (cleanup s) = memoryThreshold s"
  "admitting (cleanup s) = admitting s"
  "calls (cleanup s) = calls s"
  "admitted (cleanup s) = admitted s"
  by (simp_all add: cleanup_def)

lemma finish_fields [simp]:
  "queue (snd (finish now s)) = queue s"
  "currentlyProcessing (snd (finish now s)) = currentlyProcessing s"
  "failedVideos (snd (finish now s)) = failedVideos s"
  "finishedVideos (snd (finish now s)) = finishedVideos s"
  "maxConcurrentJobs (snd (finish now s)) = maxConcurrentJobs s"
  "running (snd (finish now s)) = False"
  "paused (snd (finish now s)) = paused s"
  "shuttingDown (snd (finish now s)) = shuttingDown s"
  "metrics (snd (finish now s)) = metrics s"
  "awaiting (snd (finish now s)) = awaiting s"
  "stopping (snd (finish now s)) = stopping s"
  "allocated (snd (finish now s)) = allocated s"
  "launched (snd (finish now s)) = launched s"
  "memoryThreshold (snd (finish now s)) = memoryThreshold s"
  "admitting (snd (finish now s)) = admitting s"
  "calls (snd (finish now s)) = calls s"
  "admitted (snd (finish now s)) = admitted s"
  by (simp_all add: finish_def Let_def)

lemma processVideo_begin_fields [simp]:
  "queue (processVideo_begin now v s) = queue s"
  "currentlyProcessing (processVideo_begin now v s) = set_add v (currentlyProcessing s)"
  "failedVideos (processVideo_begin now v s) = failedVideos s"
  "finishedVideos (processVideo_begin now v s) = finishedVideos s"
  "maxConcurrentJobs (processVideo_begin now v s) = maxConcurrentJobs s"
  "running (processVideo_begin now v s) = running s"
  "paused (processVideo_begin now v s) = paused s"
  "shuttingDown (processVideo_begin now v s) = shuttingDown s"
  "metrics (processVideo_begin now v s) = metrics s"
  "awaiting (processVideo_begin now v s) = awaiting s @ [(v, now)]"
  "stopping (processVideo_begin now v s) = stopping s"
  "allocated (processVideo_begin now v s) = allocated s"
  "launched (processVideo_begin now v s) = launched s @ [v]"
  "memoryThreshold (processVideo_begin now v s) = memoryThreshold s"
  "admitting (processVideo_begin now v s) = admitting s"
  "calls (processVideo_begin now v s) = calls s"
  "admitted (processVideo_begin now v s) = admitted s"
  by (simp_all add: processVideo_begin_def)

lemma processQueue_preserves:
  assumes init: "P s"
    and dispatch: "\<And>now s v rest. P s \<Longrightarrow> running s \<Longrightarrow> \<not> paused s \<Longrightarrow> \<not> shuttingDown s \<Longrightarrow>
        int (length (currentlyProcessing s)) < maxConcurrentJobs s \<Longrightarrow> queue s = v # rest \<Longrightarrow>
        P (processVideo_begin now v (s\<lparr>queue := rest\<rparr>))"
    and fin: "\<And>now s. P s \<Longrightarrow> running s \<Longrightarrow> queue s = [] \<Longrightarrow> currentlyProcessing s = [] \<Longrightarrow>
        P (snd (finish now s))"
  shows "P (processQueue now s)"
  using init
proof (induction now s rule: processQueue.induct)
  case (1 now s)
  show ?case
  proof (cases "running s \<and> \<not> paused s \<and> \<not> shuttingDown s")
    case False
    then show ?thesis using "1.prems" by (subst processQueue.simps) auto
  next
    case go: True
    show ?thesis
    proof (cases "maxConcurrentJobs s \<le> int (length (currentlyProcessing s)) \<or> length (queue s) = 0")
      case True
      then show ?thesis using go "1.prems" fin [of s now]
        by (subst processQueue.simps) auto
    next
      case room: False
      then obtain v rest where q: "queue s = v # rest" by (cases "queue s") auto
      have "P (processVideo_begin now v (s\<lparr>queue := rest\<rparr>))"
        using dispatch [of s v rest now] "1.prems" go room q by auto
      then have "P (processQueue now (processVideo_begin now v (s\<lparr>queue := rest\<rparr>)))"
        using "1.IH" [of v rest] go room q by auto
      then show ?thesis using go room q by (subst processQueue.simps) auto
    qed
  qed
qed

lemma processQueue_fields [simp]:
  "maxConcurrentJobs (processQueue now s) = maxConcurrentJobs s"
  "metrics (processQueue now s) = metrics s"
  "failedVideos (processQueue now s) = failedVideos s"
  "finishedVideos (processQueue now s) = finishedVideos s"
  "stopping (processQueue now s) = stopping s"
  "allocated (processQueue now s) = allocated s"
  "paused (processQueue now s) = paused s"
  "shuttingDown (processQueue now s) = shuttingDown s"
  "memoryThreshold (processQueue now s) = memoryThreshold s"
  "admitting (processQueue now s) = admitting s"
  "calls (processQueue now s) = calls s"
  "admitted (processQueue now s) = admitted s"
proof -
  show "maxConcurrentJobs (processQueue now s) = maxConcurrentJobs s"
    by (rule processQueue_preserves [where P = "\<lambda>t. maxConcurrentJobs t = maxConcurrentJobs s"]) simp_all
  show "metrics (processQueue now s) = metrics s"
    by (rule processQueue_preserves [where P = "\<lambda>t. metrics t = metrics s"]) simp_all
  show "failedVideos (processQueue now s) = failedVideos s"
    by (rule processQueue_preserves [where P = "\<lambda>t. failedVideos t = failedVideos s"]) simp_all
  show "finishedVideos (processQueue now s) = finishedVideos s"
    by (rule processQueue_preserves [where P = "\<lambda>t. finishedVideos t = finishedVideos s"]) simp_all
  show "stopping (processQueue now s) = stopping s"
    by (rule processQueue_preserves [where P = "\<lambda>t. stopping t = stopping s"]) simp_all
  show "allocated (processQueue now s) = allocated s"
    by (rule processQueue_preserves [where P = "\<lambda>t. allocated t = allocated s"]) simp_all
  show "paused (processQueue now s) = paused s"
    by (rule processQueue_preserves [where P = "\<lambda>t. paused t = paused s"]) simp_all
  show "shuttingDown (processQueue now s) = shuttingDown s"
    by (rule processQueue_preserves [where P = "\<lambda>t. shuttingDown t = shuttingDown s"]) simp_all
  show "memoryThreshold (processQueue now s) = memoryThreshold s"
    by (rule processQueue_preserves [where P = "\<lambda>t. memoryThreshold t = memoryThreshold s"]) simp_all
  show "admitting (processQueue now s) = admitting s"
    by (rule processQueue_preserves [where P = "\<lambda>t. admitting t = admitting s"]) simp_all
  show "calls (processQueue now s) = calls s"
    by (rule processQueue_preserves [where P = "\<lambda>t. calls t = calls s"]) simp_all
  show "admitted (processQueue now s) = admitted s"
    by (rule processQueue_preserves [where P = "\<lambda>t. admitted t = admitted s"]) simp_all
qed

lemma addVideo_call_fields [simp]:
  "queue (addVideo_call p s) = queue s"
  "currentlyProcessing (addVideo_call p s) = currentlyProcessing s"
  "failedVideos (addVideo_call p s) = failedVideos s"
  "finishedVideos (addVideo_call p s) = finishedVideos s"
  "maxConcurrentJobs (addVideo_call p s) = maxConcurrentJobs s"
  "running (addVideo_call p s) = running s"
  "paused (addVideo_call p s) = paused s"
  "shuttingDown (addVideo_call p s) = shuttingDown s"
  "metrics (addVideo_call p s) = metrics s"
  "awaiting (addVideo_call p s) = awaiting s"
  "stopping (addVideo_call p s) = stopping s"
  "allocated (addVideo_call p s) = allocated s"
  "launched (addVideo_call p s) = launched s"
  "memoryThreshold (addVideo_call p s) = memoryThreshold s"
  "performanceInterval (addVideo_call p s) = performanceInterval s"
  "admitting (addVideo_call p s) = admitting s @ [(calls s, p)]"
  "calls (addVideo_call p s) = Suc (calls s)"
  "admitted (addVideo_call p s) = admitted s"
  by (simp_all add: addVideo_call_def)

lemma addVideo_accessed_fields [simp]:
  "currentlyProcessing (addVideo_accessed k r s) = currentlyProcessing s"
  "failedVideos (addVideo_accessed k r s) = failedVideos s"
  "finishedVideos (addVideo_accessed k r s) = finishedVideos s"
  "maxConcurrentJobs (addVideo_accessed k r s) = maxConcurrentJobs s"
  "running (addVideo_accessed k r s) = running s"
  "paused (addVideo_accessed k r s) = paused s"
  "shuttingDown (addVideo_accessed k r s) = shuttingDown s"
  "metrics (addVideo_accessed k r s) = metrics s"
  "awaiting (addVideo_accessed k r s) = awaiting s"
  "stopping (addVideo_accessed k r s) = stopping s"
  "launched (addVideo_accessed k r s) = launched s"
  "memoryThreshold (addVideo_accessed k r s) = memoryThreshold s"
  "performanceInterval (addVideo_accessed k r s) = performanceInterval s"
  "calls (addVideo_accessed k r s) = calls s"
  by (simp_all add: addVideo_accessed_def addVideo_def Let_def split: option.splits prod.splits)

text \<open>The continuation of \<open>addVideo\<close> either enqueues nothing or enqueues one new video
  at the tail.\<close>

lemma addVideo_accessed_cases:
  "(queue (addVideo_accessed k r s) = queue s \<and>
    allocated (addVideo_accessed k r s) = allocated s \<and>
    admitted (addVideo_accessed k r s) = admitted s) \<or>
   (\<exists>v. vid v = allocated s \<and> queue (addVideo_accessed k r s) = queue s @ [v] \<and>
      allocated (addVideo_accessed k r s) = Suc (allocated s) \<and>
      admitted (addVideo_accessed k r s) = admitted s @ [k] \<and>
      k \<in> fst ` set (admitting s))"
proof (cases "find (\<lambda>c. fst c = k) (admitting s)")
  case None
  then show ?thesis by (simp add: addVideo_accessed_def)
next
  case (Some c)
  then have "c \<in> set (admitting s)" "fst c = k"
    by (auto simp: find_Some_iff)
  then have "k \<in> fst ` set (admitting s)" by force
  then show ?thesis using Some
    by (cases c; cases r) (simp_all add: addVideo_accessed_def addVideo_def Let_def)
qed

lemma addVideo_accessed_admitting:
  "set (admitting (addVideo_accessed k r s)) \<subseteq> set (admitting s)"
  by (auto simp: addVideo_accessed_def addVideo_def Let_def split: option.splits prod.splits)

lemma step_limit_le: "maxConcurrentJobs (step s e) \<le> maxConcurrentJobs s"
  by (cases e)
     (auto simp: Let_def start_def pause_def resume_def stop_begin_def stop_end_def
        process_resolved_def process_rejected_def processVideo_finally_def handleVideoError_def
        updateProcessingMetrics_def checkMemoryUsage_def updateMetrics_def
        split: option.splits prod.splits caught.splits)

lemma run_limit_le: "maxConcurrentJobs (run s evs) \<le> maxConcurrentJobs s"
  unfolding run_def
proof (induction evs arbitrary: s)
  case Nil show ?case by simp
next
  case (Cons e evs)
  have "maxConcurrentJobs (foldl step (step s e) evs) \<le> maxConcurrentJobs (step s e)"
    by (rule Cons.IH)
  also have "\<dots> \<le> maxConcurrentJobs s" by (rule step_limit_le)
  finally show ?case by simp
qed


lemma one_in_flight_fields:
  "queue one_in_flight = []"
  "map vid (currentlyProcessing one_in_flight) = [0]"
  "finishedVideos one_in_flight = []"
  "failedVideos one_in_flight = []"
  "running one_in_flight"
  "allocated one_in_flight = 1"
  by (simp_all add: one_in_flight_def run_def new_encoder_def no_options_def addVideo_call_def addVideo_accessed_def addVideo_def Let_def
      start_def processQueue.simps processVideo_begin_def set_add_def)

lemma two_in_flight_fields:
  "map vid (currentlyProcessing two_in_flight) = [0, 1]"
  "maxConcurrentJobs two_in_flight = 2"
  "performanceInterval two_in_flight"
  "memoryThreshold two_in_flight = 1073741824"
  by (simp_all add: two_in_flight_def run_def new_encoder_def no_options_def two_jobs_options_def
      addVideo_call_def addVideo_accessed_def addVideo_def Let_def start_def processQueue.simps processVideo_begin_def set_add_def)

lemma finished_encoder_fields:
  "running finished_encoder = False"
  "startTime (metrics finished_encoder) = Some 10"
  by (simp_all add: finished_encoder_def new_encoder_def no_options_def start_def
      processQueue.simps)

section \<open>Helper lemmas: runs and their invariants\<close>

lemma run_invariant:
  assumes "P s" and "\<And>t e. P t \<Longrightarrow> e \<in> set evs \<Longrightarrow> P (step t e)"
  shows "P (run s evs)"
  using assms unfolding run_def
proof (induction evs arbitrary: s)
  case Nil
  then show ?case by simp
next
  case (Cons e evs)
  have "P (step s e)" using Cons.prems by simp
  then show ?case using Cons.IH [of "step s e"] Cons.prems(2) by simp
qed

lemmas step_defs =
  start_def pause_def resume_def stop_begin_def stop_end_def
  process_resolved_def process_rejected_def processVideo_finally_def handleVideoError_def
  updateProcessingMetrics_def checkMemoryUsage_def updateMetrics_def Let_def


lemma processQueue_fifo: "fifo_inv s \<Longrightarrow> fifo_inv (processQueue now s)"
  by (rule processQueue_preserves [where P = fifo_inv]) (simp_all add: fifo_inv_def)

lemma addVideo_accessed_fifo: "fifo_inv s \<Longrightarrow> fifo_inv (addVideo_accessed k r s)"
  using addVideo_accessed_cases [of k r s] by (auto simp: fifo_inv_def)

lemma step_fifo: "fifo_inv s \<Longrightarrow> fifo_inv (step s e)"
proof (cases e)
  case (AddVideo p r)
  assume "fifo_inv s"
  then have "fifo_inv (addVideo_call p s)" by (simp add: fifo_inv_def)
  then show ?thesis using AddVideo addVideo_accessed_fifo by simp
next
  case (Accessed k r)
  assume "fifo_inv s"
  then show ?thesis using Accessed addVideo_accessed_fifo by simp
next
  case (Start now)
  assume a: "fifo_inv s"
  have "fifo_inv (s\<lparr>running := True, paused := False, shuttingDown := False,
                 metrics := (metrics s)\<lparr>startTime := Some now\<rparr>\<rparr>)"
    using a by (simp add: fifo_inv_def)
  then show ?thesis using Start a processQueue_fifo by (simp add: start_def)
next
  case (ProcessQueue now)
  assume "fifo_inv s"
  then show ?thesis using ProcessQueue processQueue_fifo by simp
qed (auto simp: fifo_inv_def step_defs cleanup_def split: option.splits prod.splits sum.splits caught.splits)

lemma addVideo_accessed_admission:
  assumes "admission_inv s"
  shows "admission_inv (addVideo_accessed k r s)"
proof -
  have sub: "\<forall>c\<in>set (admitting (addVideo_accessed k r s)). fst c < calls s"
    using assms addVideo_accessed_admitting [of k r s] by (auto simp: admission_inv_def)
  have k: "k \<in> fst ` set (admitting s) \<longrightarrow> k < calls s"
    using assms by (auto simp: admission_inv_def)
  from addVideo_accessed_cases [of k r s] show ?thesis
  proof
    assume "queue (addVideo_accessed k r s) = queue s \<and>
      allocated (addVideo_accessed k r s) = allocated s \<and>
      admitted (addVideo_accessed k r s) = admitted s"
    then show ?thesis using assms sub by (simp add: admission_inv_def)
  next
    assume "\<exists>v. vid v = allocated s \<and> queue (addVideo_accessed k r s) = queue s @ [v] \<and>
      allocated (addVideo_accessed k r s) = Suc (allocated s) \<and>
      admitted (addVideo_accessed k r s) = admitted s @ [k] \<and> k \<in> fst ` set (admitting s)"
    then have "allocated (addVideo_accessed k r s) = Suc (allocated s)"
      "admitted (addVideo_accessed k r s) = admitted s @ [k]" "k < calls s"
      using k by blast+
    then show ?thesis using assms sub by (simp add: admission_inv_def)
  qed
qed

lemma step_unchanged_admission:
  assumes "\<forall>p r. e \<noteq> AddVideo p r" "\<not> overlapped e"
  shows "admitting (step s e) = admitting s \<and> admitted (step s e) = admitted s \<and>
         calls (step s e) = calls s \<and> allocated (step s e) = allocated s"
  using assms
  by (cases e)
     (auto simp: step_defs cleanup_def split: option.splits prod.splits sum.splits caught.splits)

lemma step_admission: "admission_inv s \<Longrightarrow> admission_inv (step s e)"
proof (cases e)
  case (AddVideo p r)
  assume "admission_inv s"
  then have "admission_inv (addVideo_call p s)"
    by (auto simp: admission_inv_def less_Suc_eq)
  then show ?thesis using AddVideo addVideo_accessed_admission by simp
next
  case (AddVideoCall p)
  assume "admission_inv s"
  then show ?thesis using AddVideoCall by (auto simp: admission_inv_def less_Suc_eq)
next
  case (Accessed k r)
  assume "admission_inv s"
  then show ?thesis using Accessed addVideo_accessed_admission by simp
qed (use step_unchanged_admission [of e s] in \<open>auto simp: admission_inv_def\<close>)

lemma new_encoder_admission:
  "admission_inv (new_encoder cpus opts)" "in_call_order (new_encoder cpus opts)"
  by (simp_all add: admission_inv_def in_call_order_def new_encoder_def Let_def)

text \<open>A call of \<open>addVideo\<close> that nothing overlaps constructs its video after those of all
  earlier calls.\<close>

lemma step_call_order:
  assumes "admission_inv s" "in_call_order s" "\<not> overlapped e"
  shows "in_call_order (step s e)"
proof (cases e)
  case (AddVideo p r)
  have "\<forall>k\<in>set (admitted s). k < calls s" "admitting s = []" "sorted_wrt (<) (admitted s)"
    using assms by (simp_all add: admission_inv_def in_call_order_def)
  then show ?thesis using AddVideo
    by (cases r)
       (simp_all add: in_call_order_def addVideo_accessed_def addVideo_call_def addVideo_def
          Let_def sorted_wrt_append)
next
  case (AddVideoCall p)
  then show ?thesis using assms(3) by simp
next
  case (Accessed k r)
  then show ?thesis using assms(3) by simp
qed (use assms(2) step_unchanged_admission [of e s] in \<open>auto simp: in_call_order_def\<close>)

lemma new_encoder_fifo: "fifo_inv (new_encoder cpus opts)"
  by (simp add: fifo_inv_def new_encoder_def Let_def)

lemma length_set_add: "length (set_add x xs) \<le> Suc (length xs)"
  by (simp add: set_add_def)

lemma length_set_delete: "length (set_delete x xs) \<le> length xs"
  by (simp add: set_delete_def removeAll_filter_not_eq)

lemma length_set_delete_max: "int (length (set_delete x xs)) \<le> max (int (length xs)) m"
  using length_set_delete [of x xs] by linarith

lemma processQueue_in_flight_bound:
  "int (length (currentlyProcessing (processQueue now s)))
     \<le> max (int (length (currentlyProcessing s))) (maxConcurrentJobs s)"
proof -
  let ?P = "\<lambda>t. int (length (currentlyProcessing t))
     \<le> max (int (length (currentlyProcessing s))) (maxConcurrentJobs s) \<and>
     maxConcurrentJobs t = maxConcurrentJobs s"
  have "?P (processQueue now s)"
  proof (rule processQueue_preserves [where P = ?P])
    show "?P s" by simp
  next
    fix now v rest and t :: encoder
    assume "?P t" "int (length (currentlyProcessing t)) < maxConcurrentJobs t"
    then show "?P (processVideo_begin now v (t\<lparr>queue := rest\<rparr>))"
      using length_set_add [of v "currentlyProcessing t"] by simp
  next
    fix now and t :: encoder
    assume "?P t"
    then show "?P (snd (finish now t))" by simp
  qed
  then show ?thesis by simp
qed

lemma step_in_flight_bound:
  "int (length (currentlyProcessing (step s e)))
     \<le> max (int (length (currentlyProcessing s))) (maxConcurrentJobs s)"
proof (cases e)
  case (Start now)
  let ?t = "s\<lparr>running := True, paused := False, shuttingDown := False,
                 metrics := (metrics s)\<lparr>startTime := Some now\<rparr>\<rparr>"
  show ?thesis using Start processQueue_in_flight_bound [of now ?t] by (simp add: start_def)
next
  case (ProcessQueue now)
  then show ?thesis using processQueue_in_flight_bound [of now s] by simp
next
  case (Resolved j now i outp)
  then show ?thesis
    by (auto simp: step_defs length_set_delete_max split: option.splits prod.splits)
next
  case (Rejected j now err st)
  then show ?thesis
    by (auto simp: step_defs length_set_delete_max
          split: option.splits prod.splits sum.splits caught.splits)
qed (auto simp: step_defs cleanup_def)

lemma updateProcessingMetrics_step:
  "(averageProcessingTime (metrics (updateProcessingMetrics i x s)),
    totalFilesProcessed (metrics (updateProcessingMetrics i x s))) =
   average_step (averageProcessingTime (metrics s), totalFilesProcessed (metrics s)) x"
  by (simp add: updateProcessingMetrics_def Let_def)

lemma average_fold_count: "snd (foldl average_step (a, n) xs) = n + length xs"
  by (induction xs arbitrary: a n) auto

lemma exact_step_incremental:
  "fst (exact_step (avg, n) x) = avg + (of_int x - avg) / of_nat (Suc n)"
  by (simp add: field_simps)

lemma exact_fold:
  "snd (foldl exact_step (a, n) xs) = n + length xs \<and>
   fst (foldl exact_step (a, n) xs) * of_nat (n + length xs) = a * of_nat n + of_int (sum_list xs)"
proof (induction xs arbitrary: a n)
  case Nil
  show ?case by simp
next
  case (Cons x xs)
  let ?b = "((a * (of_nat (Suc n) - 1)) + of_int x) / of_nat (Suc n)"
  have b: "?b * of_nat (Suc n) = a * of_nat n + of_int x" by (simp add: field_simps)
  show ?case using Cons.IH [of ?b "Suc n"] b by (simp add: algebra_simps)
qed

lemma exact_average_mean:
  assumes "xs \<noteq> []"
  shows "exact_average xs = of_int (sum_list xs) / of_nat (length xs)"
proof -
  have "fst (foldl exact_step (0, 0) xs) * of_nat (length xs) = of_int (sum_list xs)"
    using exact_fold [of 0 0 xs] by simp
  moreover have "(of_nat (length xs) :: rat) \<noteq> 0" using assms by simp
  ultimately show ?thesis by (simp add: exact_average_def field_simps)
qed

lemma updateProcessingMetrics_fields [simp]:
  "totalFilesProcessed (metrics (updateProcessingMetrics i x s)) = Suc (totalFilesProcessed (metrics s))"
  "finishedVideos (updateProcessingMetrics i x s) = finishedVideos s"
  "failedVideos (updateProcessingMetrics i x s) = failedVideos s"
  "queue (updateProcessingMetrics i x s) = queue s"
  "currentlyProcessing (updateProcessingMetrics i x s) = currentlyProcessing s"
  "awaiting (updateProcessingMetrics i x s) = awaiting s"
  "allocated (updateProcessingMetrics i x s) = allocated s"
  "admitting (updateProcessingMetrics i x s) = admitting s"
  "admitted (updateProcessingMetrics i x s) = admitted s"
  "calls (updateProcessingMetrics i x s) = calls s"
  "launched (updateProcessingMetrics i x s) = launched s"
  "maxConcurrentJobs (updateProcessingMetrics i x s) = maxConcurrentJobs s"
  "running (updateProcessingMetrics i x s) = running s"
  "paused (updateProcessingMetrics i x s) = paused s"
  "shuttingDown (updateProcessingMetrics i x s) = shuttingDown s"
  "stopping (updateProcessingMetrics i x s) = stopping s"
  by (simp_all add: updateProcessingMetrics_def Let_def)

lemma process_resolved_metrics:
  assumes "metrics_inv s"
  shows "metrics_inv (process_resolved j now i outp s)"
proof (cases "find_awaiting j s")
  case None
  then show ?thesis using assms by (simp add: process_resolved_def)
next
  case (Some a)
  obtain v t0 where a: "a = (v, t0)" by (cases a)
  show ?thesis using Some a assms updateProcessingMetrics_step [of i "now - t0" s]
    by (simp add: process_resolved_def Let_def processVideo_finally_def metrics_inv_def)
qed

lemma step_metrics: "metrics_inv s \<Longrightarrow> metrics_inv (step s e)"
proof (cases e)
  case (Resolved j now i outp)
  assume "metrics_inv s"
  then show ?thesis using Resolved process_resolved_metrics by simp
qed (auto simp: metrics_inv_def start_def pause_def resume_def stop_begin_def stop_end_def
        process_rejected_def processVideo_finally_def handleVideoError_def
        checkMemoryUsage_def updateMetrics_def Let_def
        split: option.splits prod.splits sum.splits caught.splits)

lemma run_metrics: "metrics_inv (run (new_encoder cpus opts) evs)"
  by (rule run_invariant) (simp_all add: step_metrics, simp add: metrics_inv_def new_encoder_def Let_def)

lemma find_awaiting_Some:
  "find_awaiting j s = Some (v, t0) \<Longrightarrow> (v, t0) \<in> set (awaiting s) \<and> vid v = j"
proof -
  assume "find_awaiting j s = Some (v, t0)"
  then obtain i where i: "i < length (awaiting s)" "vid (fst (awaiting s ! i)) = j"
      "(v, t0) = awaiting s ! i"
    by (auto simp: find_awaiting_def find_Some_iff)
  have "(v, t0) \<in> set (awaiting s)" using i(1,3) by (metis nth_mem)
  moreover have "vid v = j" using i(2,3) by (metis fst_conv)
  ultimately show ?thesis by simp
qed

lemma awaiting_ids_filter:
  assumes "distinct (map (\<lambda>a. vid (fst a)) aw)" "(v, t0) \<in> set aw"
  shows "set (map (\<lambda>a. vid (fst a)) (filter (\<lambda>a. fst a \<noteq> v) aw))
           = set (map (\<lambda>a. vid (fst a)) aw) - {vid v}"
proof -
  have inj: "inj_on (\<lambda>a. vid (fst a)) (set aw)"
    using assms(1) by (simp add: distinct_map)
  have "\<And>a. a \<in> set aw \<Longrightarrow> vid (fst a) = vid v \<Longrightarrow> fst a = v"
    using inj assms(2) by (metis fst_conv inj_onD)
  then show ?thesis by auto
qed

lemma awaiting_ids_filter_distinct:
  "distinct (map (\<lambda>a. vid (fst a)) aw) \<Longrightarrow>
   distinct (map (\<lambda>a. vid (fst a)) (filter (\<lambda>a. fst a \<noteq> v) aw))"
  by (rule distinct_map_filter)

lemma set_set_add [simp]: "set (set_add x xs) = insert x (set xs)"
  by (auto simp: set_add_def)

lemma distinct_set_add [simp]: "distinct (set_add x xs) = distinct xs"
  by (auto simp: set_add_def)

lemma set_set_delete [simp]: "set (set_delete x xs) = set xs - {x}"
  by (auto simp: set_delete_def)

lemma distinct_set_delete [simp]: "distinct xs \<Longrightarrow> distinct (set_delete x xs)"
  by (simp add: set_delete_def distinct_removeAll)

lemma new_encoder_inv: "encoder_inv (new_encoder cpus opts)"
  by (simp add: encoder_inv_def job_ids_def new_encoder_def Let_def)

lemma addVideo_accessed_job_ids:
  "(job_ids (addVideo_accessed k r s) = job_ids s \<and>
    allocated (addVideo_accessed k r s) = allocated s) \<or>
   (set (job_ids (addVideo_accessed k r s)) = insert (allocated s) (set (job_ids s)) \<and>
    distinct (job_ids (addVideo_accessed k r s)) =
      (distinct (job_ids s) \<and> allocated s \<notin> set (job_ids s)) \<and>
    allocated (addVideo_accessed k r s) = Suc (allocated s))"
proof -
  let ?R = "map (\<lambda>a. vid (fst a)) (awaiting s) @ map fe_job (finishedVideos s) @
      map fl_job (failedVideos s)"
  have j: "job_ids s = map vid (queue s) @ ?R" by (simp add: job_ids_def)
  from addVideo_accessed_cases [of k r s] show ?thesis
  proof
    assume "queue (addVideo_accessed k r s) = queue s \<and>
      allocated (addVideo_accessed k r s) = allocated s \<and>
      admitted (addVideo_accessed k r s) = admitted s"
    then show ?thesis by (simp add: job_ids_def)
  next
    assume "\<exists>v. vid v = allocated s \<and> queue (addVideo_accessed k r s) = queue s @ [v] \<and>
      allocated (addVideo_accessed k r s) = Suc (allocated s) \<and>
      admitted (addVideo_accessed k r s) = admitted s @ [k] \<and> k \<in> fst ` set (admitting s)"
    then obtain v where v: "vid v = allocated s" "queue (addVideo_accessed k r s) = queue s @ [v]"
      "allocated (addVideo_accessed k r s) = Suc (allocated s)" by blast
    have j': "job_ids (addVideo_accessed k r s) = map vid (queue s) @ [allocated s] @ ?R"
      using v by (simp add: job_ids_def)
    have "set (job_ids (addVideo_accessed k r s)) = insert (allocated s) (set (job_ids s))"
      unfolding j j' by (simp only: set_append) auto
    moreover have "distinct (job_ids (addVideo_accessed k r s)) =
      (distinct (job_ids s) \<and> allocated s \<notin> set (job_ids s))"
      unfolding j j' by (simp only: distinct_append set_append) auto
    ultimately show ?thesis using v(3) by simp
  qed
qed

lemma addVideo_accessed_inv:
  assumes "encoder_inv s"
  shows "encoder_inv (addVideo_accessed k r s)"
proof -
  have "allocated s \<notin> set (job_ids s)" using assms by (auto simp: encoder_inv_def)
  then show ?thesis using assms addVideo_accessed_job_ids [of k r s]
    by (auto simp: encoder_inv_def lessThan_Suc)
qed

lemma dispatch_inv:
  assumes "encoder_inv s" "queue s = v # rest"
  shows "encoder_inv (processVideo_begin now v (s\<lparr>queue := rest\<rparr>))"
  using assms by (auto simp: encoder_inv_def job_ids_def)

lemma finish_inv: "encoder_inv s \<Longrightarrow> encoder_inv (snd (finish now s))"
  by (simp add: encoder_inv_def job_ids_def)

lemma processQueue_inv: "encoder_inv s \<Longrightarrow> encoder_inv (processQueue now s)"
  by (rule processQueue_preserves [where P = encoder_inv]) (simp_all add: dispatch_inv finish_inv)

lemma settle_inv:
  assumes inv: "encoder_inv s" and aw: "(v, t0) \<in> set (awaiting s)"
    and t: "queue t = queue s" "awaiting t = awaiting s" "allocated t = allocated s"
      "currentlyProcessing t = currentlyProcessing s"
    and rec: "(map fe_job (finishedVideos t) = map fe_job (finishedVideos s) @ [vid v] \<and>
               failedVideos t = failedVideos s) \<or>
              (finishedVideos t = finishedVideos s \<and>
               map fl_job (failedVideos t) = map fl_job (failedVideos s) @ [vid v]) \<or>
              (finishedVideos t = finishedVideos s \<and> failedVideos t = failedVideos s)"
  shows "encoder_inv (processVideo_finally v t)"
proof -
  let ?A = "map (\<lambda>a. vid (fst a)) (awaiting s)"
  let ?A' = "map (\<lambda>a. vid (fst a)) (filter (\<lambda>a. fst a \<noteq> v) (awaiting s))"
  let ?Q = "map vid (queue s)"
  let ?F = "map fe_job (finishedVideos s)" and ?G = "map fl_job (failedVideos s)"
  have dA: "distinct ?A" using inv by (simp add: encoder_inv_def job_ids_def)
  have sA: "set ?A' = set ?A - {vid v}" using dA aw by (rule awaiting_ids_filter)
  have dA': "distinct ?A'" using dA by (rule awaiting_ids_filter_distinct)
  have vA: "vid v \<in> set ?A" using aw by force
  have sub: "set (currentlyProcessing s) - {v} \<subseteq> fst ` set (filter (\<lambda>a. fst a \<noteq> v) (awaiting s))"
    using inv by (auto simp: encoder_inv_def)
  have dcp: "distinct (currentlyProcessing s)" using inv by (simp add: encoder_inv_def)
  have d: "distinct (?Q @ ?A @ ?F @ ?G)"
    and st: "set (?Q @ ?A @ ?F @ ?G) \<subseteq> {..<allocated s}"
    using inv by (simp_all add: encoder_inv_def job_ids_def)
  have fin: "encoder_inv (processVideo_finally v t)"
    if "distinct (?Q @ ?A' @ map fe_job (finishedVideos t) @ map fl_job (failedVideos t))"
      and "set (?Q @ ?A' @ map fe_job (finishedVideos t) @ map fl_job (failedVideos t))
             \<subseteq> {..<allocated s}"
    using that t sub dcp
    by (simp add: encoder_inv_def job_ids_def processVideo_finally_def del: set_filter)
  from rec consider
      (finished) "map fe_job (finishedVideos t) = ?F @ [vid v]" "failedVideos t = failedVideos s"
    | (failed) "finishedVideos t = finishedVideos s" "map fl_job (failedVideos t) = ?G @ [vid v]"
    | (dropped) "finishedVideos t = finishedVideos s" "failedVideos t = failedVideos s"
    by blast
  then show ?thesis
  proof cases
    case finished
    have "distinct (?Q @ ?A' @ (?F @ [vid v]) @ ?G)"
      using d dA' sA vA by (auto simp del: set_map set_filter map_map)
    moreover have "set (?Q @ ?A' @ (?F @ [vid v]) @ ?G) \<subseteq> {..<allocated s}"
      using st sA vA by (auto simp del: set_map set_filter map_map)
    ultimately show ?thesis using finished by (intro fin) simp_all
  next
    case failed
    have "distinct (?Q @ ?A' @ ?F @ ?G @ [vid v])"
      using d dA' sA vA by (auto simp del: set_map set_filter map_map)
    moreover have "set (?Q @ ?A' @ ?F @ ?G @ [vid v]) \<subseteq> {..<allocated s}"
      using st sA vA by (auto simp del: set_map set_filter map_map)
    ultimately show ?thesis using failed by (intro fin) simp_all
  next
    case dropped
    have "distinct (?Q @ ?A' @ ?F @ ?G)"
      using d dA' sA by (auto simp del: set_map set_filter map_map)
    moreover have "set (?Q @ ?A' @ ?F @ ?G) \<subseteq> {..<allocated s}"
      using st sA by (auto simp del: set_map set_filter map_map)
    ultimately show ?thesis using dropped by (intro fin) simp_all
  qed
qed

lemma process_resolved_inv:
  assumes "encoder_inv s"
  shows "encoder_inv (process_resolved j now i outp s)"
proof (cases "find_awaiting j s")
  case None
  then show ?thesis using assms by (simp add: process_resolved_def)
next
  case (Some a)
  obtain v t0 where a: "a = (v, t0)" by (cases a)
  have aw: "(v, t0) \<in> set (awaiting s)" using Some a find_awaiting_Some by simp
  show ?thesis
    unfolding process_resolved_def Some a option.case prod.case Let_def
    by (rule settle_inv [OF assms aw]) simp_all
qed

lemma process_rejected_inv:
  assumes "encoder_inv s"
  shows "encoder_inv (process_rejected j now err st s)"
proof (cases "find_awaiting j s")
  case None
  then show ?thesis using assms by (simp add: process_rejected_def)
next
  case (Some a)
  obtain v t0 where a: "a = (v, t0)" by (cases a)
  have aw: "(v, t0) \<in> set (awaiting s)" using Some a find_awaiting_Some by simp
  show ?thesis
  proof (cases err)
    case Nullish
    have "encoder_inv (processVideo_finally v s)"
      by (rule settle_inv [OF assms aw]) simp_all
    then show ?thesis using Some a Nullish
      by (simp add: process_rejected_def handleVideoError_def)
  next
    case (Thrown m)
    have "encoder_inv (processVideo_finally v
       (s\<lparr>failedVideos := failedVideos s @
           [\<lparr>fl_job = vid v, fl_path = path v, fl_base = basename (path v),
             fl_error = m, fl_timestamp = now, fl_stage = stage_name st\<rparr>]\<rparr>))"
      by (rule settle_inv [OF assms aw]) simp_all
    then show ?thesis using Some a Thrown
      by (simp add: process_rejected_def handleVideoError_def)
  qed
qed

lemma step_inv: "encoder_inv s \<Longrightarrow> encoder_inv (step s e)"
proof (cases e)
  case (AddVideo p r)
  assume "encoder_inv s"
  then have "encoder_inv (addVideo_call p s)" by (simp add: encoder_inv_def job_ids_def)
  then show ?thesis using AddVideo addVideo_accessed_inv by simp
next
  case (AddVideoCall p)
  assume "encoder_inv s"
  then show ?thesis using AddVideoCall by (simp add: encoder_inv_def job_ids_def)
next
  case (Accessed k r)
  assume "encoder_inv s"
  then show ?thesis using Accessed addVideo_accessed_inv by simp
next
  case (Start now)
  assume a: "encoder_inv s"
  have "encoder_inv (s\<lparr>running := True, paused := False, shuttingDown := False,
                 metrics := (metrics s)\<lparr>startTime := Some now\<rparr>\<rparr>)"
    using a by (simp add: encoder_inv_def job_ids_def)
  then show ?thesis using Start a processQueue_inv by (simp add: start_def)
next
  case (ProcessQueue now)
  assume "encoder_inv s"
  then show ?thesis using ProcessQueue processQueue_inv by simp
next
  case (Resolved j now i outp)
  assume "encoder_inv s"
  then show ?thesis using Resolved process_resolved_inv by simp
next
  case (Rejected j now err st)
  assume "encoder_inv s"
  then show ?thesis using Rejected process_rejected_inv by simp
qed (auto simp: encoder_inv_def job_ids_def pause_def resume_def stop_begin_def stop_end_def
       cleanup_def checkMemoryUsage_def updateMetrics_def)

lemma run_inv: "encoder_inv (run (new_encoder cpus opts) evs)"
  by (rule run_invariant) (simp_all add: new_encoder_inv step_inv)








text \<open>In a reachable state, every video in flight is the one its job number finds among
  the suspended \<open>processVideo\<close> activations.\<close>

lemma in_flight_awaiting:
  assumes "encoder_inv s" "v \<in> set (currentlyProcessing s)"
  shows "\<exists>t0. find_awaiting (vid v) s = Some (v, t0)"
proof -
  have "v \<in> fst ` set (awaiting s)" using assms by (auto simp: encoder_inv_def)
  then obtain t1 where t1: "(v, t1) \<in> set (awaiting s)" by force
  then have "\<exists>a\<in>set (awaiting s). vid (fst a) = vid v" by force
  then obtain a where a: "find (\<lambda>a. vid (fst a) = vid v) (awaiting s) = Some a"
    by (cases "find (\<lambda>a. vid (fst a) = vid v) (awaiting s)") (auto simp: find_None_iff)
  obtain w t0 where w: "a = (w, t0)" by (cases a)
  have fw: "(w, t0) \<in> set (awaiting s) \<and> vid w = vid v"
    using a w find_awaiting_Some [of "vid v" s w t0] by (simp add: find_awaiting_def)
  have inj: "inj_on (\<lambda>a. vid (fst a)) (set (awaiting s))"
    using assms(1) by (simp add: encoder_inv_def job_ids_def distinct_map)
  have "(w, t0) = (v, t1)" using inj_onD [OF inj, of "(w, t0)" "(v, t1)"] fw t1 by simp
  then show ?thesis using a w by (auto simp: find_awaiting_def)
qed




lemma stop_fields:
  assumes "running s"
  shows "currentlyProcessing (stop s) = []" "\<not> running (stop s)" "\<not> paused (stop s)"
    "finishedVideos (stop s) = finishedVideos s" "failedVideos (stop s) = failedVideos s"
    "queue (stop s) = queue s" "awaiting (stop s) = awaiting s" "allocated (stop s) = allocated s"
  using assms by (simp_all add: stop_def stop_begin_def stop_end_def)

section \<open>Helper lemmas: the metadata cache\<close>

lemma length_map_delete_le: "length (map_delete k m) \<le> length m"
  by (simp add: map_delete_def)

lemma length_map_delete_head: "length (map_delete (fst p) (p # ps)) \<le> length ps"
  by (simp add: map_delete_def)

lemma length_map_set_le: "length (map_set k v m) \<le> Suc (length m)"
  by (induction m) auto

lemma map_set_keys: "set (map fst (map_set k v m)) = insert k (set (map fst m))"
  by (induction m) auto

lemma distinct_map_set: "distinct (map fst m) \<Longrightarrow> distinct (map fst (map_set k v m))"
proof (induction m)
  case Nil
  show ?case by simp
next
  case (Cons p ps)
  then show ?case using map_set_keys [of k v ps] by (auto simp del: set_map)
qed

lemma distinct_map_delete: "distinct (map fst m) \<Longrightarrow> distinct (map fst (map_delete k m))"
  by (simp add: map_delete_def distinct_map_filter)

lemma map_delete_absent: "k \<notin> set (map fst m) \<Longrightarrow> map_delete k m = m"
  by (induction m) (auto simp: map_delete_def)

lemma map_set_absent: "k \<notin> set (map fst m) \<Longrightarrow> map_set k v m = m @ [(k, v)]"
  by (induction m) auto

lemma map_delete_keys: "set (map fst (map_delete k m)) = set (map fst m) - {k}"
  by (auto simp: map_delete_def)

lemma evict_oldest_room:
  assumes "1 \<le> maxSize c" "int (length (cache c)) \<le> maxSize c"
  shows "int (length (cache (evict_oldest c))) < maxSize c"
proof (cases "cache c")
  case Nil
  then show ?thesis using assms by (simp add: evict_oldest_def)
next
  case (Cons p ps)
  have "int (length (filter (\<lambda>q. fst q \<noteq> fst p) ps)) < 1 + int (length ps)"
    using length_filter_le [of "\<lambda>q. fst q \<noteq> fst p" ps] by linarith
  then show ?thesis using assms Cons
    by (auto simp: evict_oldest_def map_delete_def)
qed

lemma evict_oldest_maxSize [simp]: "maxSize (evict_oldest c) = maxSize c"
  by (simp add: evict_oldest_def split: list.splits)

lemma evict_oldest_distinct:
  "distinct (map fst (cache c)) \<Longrightarrow> distinct (map fst (cache (evict_oldest c)))"
  using distinct_map_delete [of "cache c"]
  by (auto simp: evict_oldest_def split: list.splits)

lemma cache_set_ok:
  assumes "1 \<le> maxSize c" "cache_ok c"
  shows "cache_ok (cache_set p st m c)" "maxSize (cache_set p st m c) = maxSize c"
proof -
  have r: "int (length (cache (evict_oldest c))) < maxSize c"
    using assms evict_oldest_room [of c] by (simp add: cache_ok_def)
  have d: "distinct (map fst (cache (evict_oldest c)))"
    using assms evict_oldest_distinct [of c] by (simp add: cache_ok_def)
  show "maxSize (cache_set p st m c) = maxSize c"
    by (simp add: cache_set_def Let_def split: option.splits)
  show "cache_ok (cache_set p st m c)"
  proof (cases st)
    case None
    then show ?thesis using r d by (simp add: cache_set_def Let_def cache_ok_def)
  next
    case (Some stt)
    have "length (map_set (cacheKey p stt) m (cache (evict_oldest c)))
            \<le> Suc (length (cache (evict_oldest c)))"
      by (rule length_map_set_le)
    then show ?thesis using Some r d distinct_map_set [of "cache (evict_oldest c)"]
      by (simp add: cache_set_def Let_def cache_ok_def)
  qed
qed

lemma cache_get_ok:
  assumes "cache_ok c"
  shows "cache_ok (snd (cache_get p st c))" "maxSize (snd (cache_get p st c)) = maxSize c"
proof -
  show "maxSize (snd (cache_get p st c)) = maxSize c"
    by (simp add: cache_get_def Let_def split: option.splits)
  show "cache_ok (snd (cache_get p st c))"
  proof (cases st)
    case None
    then show ?thesis using assms by (simp add: cache_get_def)
  next
    case (Some stt)
    let ?k = "cacheKey p stt"
    show ?thesis
    proof (cases "map_of (cache c) ?k")
      case None
      then show ?thesis using Some assms by (simp add: cache_get_def Let_def map_has_def)
    next
      case (Some v)
      then have mem: "?k \<in> set (map fst (cache c))"
        by (metis map_of_eq_None_iff option.distinct(1) set_map)
      have dd: "distinct (map fst (map_delete ?k (cache c)))"
        using assms distinct_map_delete by (auto simp: cache_ok_def)
      have "length (map_delete ?k (cache c)) < length (cache c)"
        using mem by (auto simp: map_delete_def intro!: length_filter_less)
      moreover have "length (map_set ?k v (map_delete ?k (cache c)))
            \<le> Suc (length (map_delete ?k (cache c)))"
        by (rule length_map_set_le)
      ultimately have "length (map_set ?k v (map_delete ?k (cache c))) \<le> length (cache c)"
        by simp
      then show ?thesis using \<open>st = Some stt\<close> Some assms dd distinct_map_set
        by (auto simp: cache_get_def Let_def map_has_def cache_ok_def)
    qed
  qed
qed

lemma cache_step_ok:
  assumes "1 \<le> maxSize c" "cache_ok c"
  shows "cache_ok (cache_step c opn) \<and> maxSize (cache_step c opn) = maxSize c"
  using assms cache_set_ok [of c] cache_get_ok [of c]
  by (cases opn) (auto simp: cache_clear_def cache_ok_def)

lemma cache_run_ok:
  assumes "1 \<le> maxSize c" "cache_ok c"
  shows "cache_ok (cache_run c ops) \<and> maxSize (cache_run c ops) = maxSize c"
  using assms unfolding cache_run_def
proof (induction ops arbitrary: c)
  case Nil
  then show ?case by simp
next
  case (Cons opn ops)
  have "cache_ok (cache_step c opn) \<and> maxSize (cache_step c opn) = maxSize c"
    using Cons.prems by (rule cache_step_ok)
  then show ?case using Cons.IH [of "cache_step c opn"] Cons.prems by simp
qed

lemma cache_set_full:
  assumes "maxSize c \<le> int (length (cache c))" "cache c = (k0, v0) # rest"
    "distinct (map fst (cache c))"
  shows "cache (cache_set p (Some stt) m c) = map_set (cacheKey p stt) m rest"
  using assms map_delete_absent [of k0 rest]
  by (simp add: cache_set_def evict_oldest_def Let_def map_delete_def)

lemma cache_get_hit:
  assumes "map_of (cache c) (cacheKey p stt) = Some v" "distinct (map fst (cache c))"
  shows "cache_get p (Some stt) c =
     (Some v, c\<lparr>cache := map_delete (cacheKey p stt) (cache c) @ [(cacheKey p stt, v)]\<rparr>)"
proof -
  have "cacheKey p stt \<notin> set (map fst (map_delete (cacheKey p stt) (cache c)))"
    using map_delete_keys [of "cacheKey p stt" "cache c"] by (simp del: set_map)
  then have "map_set (cacheKey p stt) v (map_delete (cacheKey p stt) (cache c)) =
      map_delete (cacheKey p stt) (cache c) @ [(cacheKey p stt, v)]"
    by (rule map_set_absent)
  then show ?thesis using assms(1)
    by (simp add: cache_get_def Let_def map_has_def)
qed

section \<open>Helper lemmas: the example runs\<close>

lemma throttled_fields:
  "map vid (currentlyProcessing throttled) = [0, 1]"
  "maxConcurrentJobs throttled = 1"
  by (simp_all add: throttled_def two_in_flight_fields checkMemoryUsage_def updateMetrics_def)

lemma one_in_flight_awaiting:
  "awaiting one_in_flight =
     [(\<lparr>vid = 0, path = ''a.mkv'', hwAccel = [], enableCache = True\<rparr>, 10)]"
  by (simp add: one_in_flight_def run_def new_encoder_def no_options_def addVideo_call_def addVideo_accessed_def addVideo_def Let_def
      start_def processQueue.simps processVideo_begin_def set_add_def)

lemma stopped_encoder_eq: "stopped_encoder = stop one_in_flight"
  by (simp add: stopped_encoder_def one_in_flight_def run_def stop_def
        one_in_flight_fields [unfolded one_in_flight_def run_def, simplified])

lemma stopped_encoder_fields:
  "queue stopped_encoder = []"
  "currentlyProcessing stopped_encoder = []"
  "finishedVideos stopped_encoder = []"
  "failedVideos stopped_encoder = []"
  "allocated stopped_encoder = 1"
  by (simp_all add: stopped_encoder_eq stop_fields one_in_flight_fields)

lemma two_in_flight_more:
  "length (launched two_in_flight) = 2"
  "allocated two_in_flight = 2"
  "maxConcurrentJobs (new_encoder 8 two_jobs_options) = 2"
  by (simp_all add: two_in_flight_def run_def new_encoder_def no_options_def two_jobs_options_def
      addVideo_call_def addVideo_accessed_def addVideo_def Let_def start_def processQueue.simps processVideo_begin_def set_add_def)

lemma two_done_times:
  "map fe_processingTime (finishedVideos two_done) = [30, 60]"
  by (simp add: two_done_def run_def new_encoder_def no_options_def two_jobs_options_def
      addVideo_call_def addVideo_accessed_def addVideo_def Let_def start_def processQueue.simps processVideo_begin_def set_add_def
      process_resolved_def find_awaiting_def processVideo_finally_def)

lemma two_in_flight_admitted: "admitted two_in_flight = [0, 1]"
  by (simp add: two_in_flight_def run_def new_encoder_def no_options_def two_jobs_options_def
      addVideo_call_def addVideo_accessed_def addVideo_def Let_def start_def processQueue.simps
      processVideo_begin_def set_add_def)

lemma overlapped_calls_fields:
  "map path (launched overlapped_calls) = [''b.mkv'', ''a.mkv'']"
  "admitted overlapped_calls = [1, 0]"
  by (simp_all add: overlapped_calls_def run_def new_encoder_def no_options_def
      addVideo_call_def addVideo_accessed_def addVideo_def Let_def start_def processQueue.simps
      processVideo_begin_def set_add_def)

lemma dropped_job_fields:
  "queue dropped_job = []"
  "currentlyProcessing dropped_job = []"
  "finishedVideos dropped_job = []"
  "failedVideos dropped_job = []"
  "allocated dropped_job = 1"
  by (simp_all add: dropped_job_def run_def new_encoder_def no_options_def
      addVideo_call_def addVideo_accessed_def addVideo_def Let_def start_def processQueue.simps
      processVideo_begin_def set_add_def process_rejected_def find_awaiting_def
      handleVideoError_def processVideo_finally_def set_delete_def)

lemma eight_done_times:
  "map fe_processingTime (finishedVideos eight_done) = eight_times"
  by (simp add: eight_done_def eight_events_def eight_times_def run_def new_encoder_def
      no_options_def one_job_options_def addVideo_call_def addVideo_accessed_def addVideo_def
      Let_def start_def processQueue.simps processVideo_begin_def set_add_def set_delete_def
      process_resolved_def find_awaiting_def processVideo_finally_def)

lemma stored_average_eight:
  "stored_average [3, 7, 1, 7, 3, 5, 3, 1] = 8444249301319681 / 2251799813685248"
  by code_simp

text \<open>A job whose \<open>video.process()\<close> rejects with \<open>null\<close> or \<open>undefined\<close> is recorded
  nowhere: \<open>handleVideoError\<close> throws before its push, and the \<open>finally\<close> block removes
  the video from the in-flight set.\<close>

lemma dropped_job_unowned: "0 < allocated dropped_job \<and> owners 0 dropped_job = 0"
  by (simp add: owners_def dropped_job_fields)

lemma full_cache_eval:
  "cache full_cache = [((''a.mkv'', 1700000000000, 4096), 1), ((''b.mkv'', 1700000000000, 4096), 2)]"
  by (simp add: full_cache_def cache_run_def new_cache_def cache_set_def evict_oldest_def
        Let_def map_delete_def cacheKey_def example_stats_def)

section \<open>Ownership of jobs\<close>




section \<open>What \<open>stop()\<close> does to the jobs in flight\<close>

text \<open>
  C2, as the code has it. \<open>stop()\<close> on an encoder that is not running does nothing. On
  a running encoder, at any point of any run, it leaves the in-flight set empty and the
  flags \<open>running\<close> and \<open>paused\<close> cleared, and it adds nothing to the finished list or to
  the failed list: every job that was in flight stays with its suspended \<open>processVideo\<close>
  activation. Such a job is recorded only when its own \<open>video.process()\<close> settles
  afterwards: in the finished list if it resolves, in the failed list with the error
  message of the runner if it rejects with an error value. The second half of \<open>stop()\<close>
  alone (after other events ran in between) also empties the in-flight set and records
  nothing.
\<close>

theorem stop_records_nothing:
  "let s = run (new_encoder cpus opts) evs in
   (\<not> running s \<longrightarrow> stop s = s) \<and>
   (running s \<longrightarrow>
      currentlyProcessing (stop s) = [] \<and> \<not> running (stop s) \<and> \<not> paused (stop s) \<and>
      finishedVideos (stop s) = finishedVideos s \<and> failedVideos (stop s) = failedVideos s \<and>
      queue (stop s) = queue s \<and> awaiting (stop s) = awaiting s \<and>
      (\<forall>v\<in>set (currentlyProcessing s).
         (\<exists>t0. find_awaiting (vid v) (stop s) = Some (v, t0)) \<and>
         (\<forall>now m st.
            failedVideos (process_rejected (vid v) now (Thrown m) st (stop s)) =
              failedVideos s @
                [\<lparr>fl_job = vid v, fl_path = path v, fl_base = basename (path v),
                  fl_error = m, fl_timestamp = now, fl_stage = stage_name st\<rparr>]) \<and>
         (\<forall>now i outp.
            map fe_job (finishedVideos (process_resolved (vid v) now i outp (stop s))) =
              map fe_job (finishedVideos s) @ [vid v]))) \<and>
   (0 < stopping s \<longrightarrow>
      currentlyProcessing (stop_end s) = [] \<and> finishedVideos (stop_end s) = finishedVideos s \<and>
      failedVideos (stop_end s) = failedVideos s)"
proof -
  define s where "s = run (new_encoder cpus opts) evs"
  have inv: "encoder_inv s" unfolding s_def by (rule run_inv)
  have a: "stop s = s" if "\<not> running s" using that by (simp add: stop_def)
  have c: "currentlyProcessing (stop_end s) = [] \<and> finishedVideos (stop_end s) = finishedVideos s \<and>
      failedVideos (stop_end s) = failedVideos s" if "0 < stopping s"
    using that by (simp add: stop_end_def)
  have b: "(\<exists>t0. find_awaiting (vid v) (stop s) = Some (v, t0)) \<and>
         (\<forall>now m st.
            failedVideos (process_rejected (vid v) now (Thrown m) st (stop s)) =
              failedVideos s @
                [\<lparr>fl_job = vid v, fl_path = path v, fl_base = basename (path v),
                  fl_error = m, fl_timestamp = now, fl_stage = stage_name st\<rparr>]) \<and>
         (\<forall>now i outp.
            map fe_job (finishedVideos (process_resolved (vid v) now i outp (stop s))) =
              map fe_job (finishedVideos s) @ [vid v])"
    if r: "running s" and v: "v \<in> set (currentlyProcessing s)" for v
  proof -
    obtain t0 where t0: "find_awaiting (vid v) s = Some (v, t0)"
      using in_flight_awaiting [OF inv v] by blast
    have f: "find_awaiting (vid v) (stop s) = Some (v, t0)"
      using t0 r by (simp add: find_awaiting_def stop_fields)
    show ?thesis
      using f r
      by (simp add: stop_fields process_rejected_def process_resolved_def
            processVideo_finally_def handleVideoError_def Let_def)
  qed
  show ?thesis
    unfolding Let_def s_def [symmetric]
    using a b c stop_fields [of s] by blast
qed

theorem stop_records_nothing_witness:
  "running one_in_flight \<and>
   map vid (currentlyProcessing one_in_flight) = [0] \<and>
   currentlyProcessing (stop one_in_flight) = [] \<and>
   failedVideos (stop one_in_flight) = [] \<and>
   map fl_error
     (failedVideos (process_rejected 0 99 (Thrown (Some ''killed'')) None (stop one_in_flight)))
     = [Some ''killed''] \<and>
   map fe_job (finishedVideos (process_resolved 0 99 None None (stop one_in_flight))) = [0]"
proof -
  note t = stop_records_nothing [where cpus = 8 and opts = no_options
      and evs = "[AddVideo ''a.mkv'' True, Start 10]", unfolded Let_def, folded one_in_flight_def]
  have r: "running one_in_flight" by (simp add: one_in_flight_fields)
  have cp: "currentlyProcessing one_in_flight =
      [\<lparr>vid = 0, path = ''a.mkv'', hwAccel = [], enableCache = True\<rparr>]"
    by (simp add: one_in_flight_def run_def new_encoder_def no_options_def addVideo_call_def
      addVideo_accessed_def addVideo_def Let_def start_def processQueue.simps
      processVideo_begin_def set_add_def)
  let ?v = "\<lparr>vid = 0, path = ''a.mkv'', hwAccel = [], enableCache = True\<rparr>"
  have v: "?v \<in> set (currentlyProcessing one_in_flight)" by (simp add: cp)
  have s: "currentlyProcessing (stop one_in_flight) = [] \<and> failedVideos (stop one_in_flight) = []"
    using t r by (simp add: one_in_flight_fields)
  have "failedVideos (process_rejected (vid ?v) 99 (Thrown (Some ''killed'')) None (stop one_in_flight)) =
      failedVideos one_in_flight @
        [\<lparr>fl_job = vid ?v, fl_path = path ?v, fl_base = basename (path ?v),
          fl_error = Some ''killed'', fl_timestamp = 99, fl_stage = stage_name None\<rparr>]"
    using t r v by blast
  then have f: "map fl_error
     (failedVideos (process_rejected 0 99 (Thrown (Some ''killed'')) None (stop one_in_flight)))
     = [Some ''killed'']"
    by (simp add: one_in_flight_fields)
  have "map fe_job (finishedVideos (process_resolved (vid ?v) 99 None None (stop one_in_flight))) =
      map fe_job (finishedVideos one_in_flight) @ [vid ?v]"
    using t r v by blast
  then have g: "map fe_job (finishedVideos (process_resolved 0 99 None None (stop one_in_flight))) = [0]"
    by (simp add: one_in_flight_fields)
  show ?thesis using r s f g by (simp add: one_in_flight_fields)
qed

text \<open>The claim as written fails: after \<open>stop()\<close> the job that was in flight is neither
  in the finished list nor in the failed list, and no entry has the reason
  "stopped by caller".\<close>

theorem stopped_job_unrecorded_counterexample:
  "0 \<in> set (map vid (currentlyProcessing one_in_flight)) \<and>
   0 \<notin> set (map fe_job (finishedVideos stopped_encoder)) \<and>
   0 \<notin> set (map fl_job (failedVideos stopped_encoder)) \<and>
   Some ''stopped by caller'' \<notin> set (map fl_error (failedVideos stopped_encoder))"
  by (simp add: stopped_encoder_fields one_in_flight_fields)

section \<open>The in-flight set and the concurrency limit\<close>

text \<open>
  C3, as the code has it. In every run, the size of the in-flight set is at most the
  concurrency limit the encoder was constructed with (or 0 if that is negative), and the
  current limit is at most that initial limit. One event makes the in-flight set no
  larger than the greater of its size before and the limit before: it grows only by
  dispatch, and dispatch happens only below the current limit. (After the monitor has
  lowered the limit, the jobs already running stay in flight, so the size may exceed the
  current limit.)
\<close>

theorem in_flight_bound:
  "let s0 = new_encoder cpus opts; s = run s0 evs in
     int (length (currentlyProcessing s)) \<le> max 0 (maxConcurrentJobs s0) \<and>
     maxConcurrentJobs s \<le> maxConcurrentJobs s0 \<and>
     (\<forall>e. int (length (currentlyProcessing (step s e)))
            \<le> max (int (length (currentlyProcessing s))) (maxConcurrentJobs s))"
proof -
  define s0 where "s0 = new_encoder cpus opts"
  let ?P = "\<lambda>t. int (length (currentlyProcessing t)) \<le> max 0 (maxConcurrentJobs s0) \<and>
     maxConcurrentJobs t \<le> maxConcurrentJobs s0"
  have "?P (run s0 evs)"
  proof (rule run_invariant [where P = ?P])
    show "?P s0" by (simp add: s0_def new_encoder_def Let_def)
  next
    fix t :: encoder and e
    assume p: "?P t"
    have "int (length (currentlyProcessing (step t e)))
        \<le> max (int (length (currentlyProcessing t))) (maxConcurrentJobs t)"
      by (rule step_in_flight_bound)
    moreover have "maxConcurrentJobs (step t e) \<le> maxConcurrentJobs t"
      by (rule step_limit_le)
    ultimately show "?P (step t e)" using p by linarith
  qed
  then show ?thesis
    using step_in_flight_bound by (simp add: Let_def s0_def)
qed

theorem in_flight_bound_witness:
  "int (length (currentlyProcessing two_in_flight)) \<le> 2 \<and>
   int (length (currentlyProcessing throttled)) \<le> 2"
proof -
  note t = in_flight_bound [where cpus = 8 and opts = two_jobs_options
      and evs = "[AddVideo ''a.mkv'' True, AddVideo ''b.mkv'' True, Start 10]",
      unfolded Let_def, folded two_in_flight_def]
  have a: "int (length (currentlyProcessing two_in_flight)) \<le> 2"
    using t by (simp add: two_in_flight_more)
  have "int (length (currentlyProcessing (step two_in_flight (Tick 0 2000000000))))
      \<le> max (int (length (currentlyProcessing two_in_flight))) (maxConcurrentJobs two_in_flight)"
    using t by blast
  then have "int (length (currentlyProcessing throttled)) \<le> 2"
    using a by (simp add: throttled_def two_in_flight_fields del: step.simps)
  then show ?thesis using a by simp
qed

text \<open>The claim as written fails once the monitor lowers the limit under two running
  jobs: two jobs are in flight and the limit is 1.\<close>

theorem in_flight_exceeds_limit_counterexample:
  "\<not> int (length (currentlyProcessing throttled)) \<le> maxConcurrentJobs throttled"
  using arg_cong [OF throttled_fields(1), of length] by (simp add: throttled_fields(2))

section \<open>Order of dispatch\<close>

text \<open>
  C4, as the code has it. In every run, the pending queue is strict FIFO in the order in
  which the jobs are enqueued. With the jobs numbered in the order in which \<open>addVideo\<close>
  constructs and enqueues them (after its access check), the jobs launched so far are,
  in launch order, the jobs \<open>0, 1, \<dots>\<close> up to the number of launches, and the pending
  queue holds the remaining jobs in that order: \<open>addVideo\<close> appends to the tail, dispatch
  takes the head, and a job enqueued before another is dispatched before it. Every job
  comes from one call of \<open>addVideo\<close>, and in a run where no call of \<open>addVideo\<close> overlaps
  another event, the jobs are enqueued, and so dispatched, in the order of the calls.
\<close>

theorem dispatch_is_fifo:
  "let s = run (new_encoder cpus opts) evs in
     map vid (launched s) = [0..<length (launched s)] \<and>
     map vid (queue s) = [length (launched s)..<allocated s] \<and>
     length (admitted s) = allocated s \<and>
     ((\<forall>e\<in>set evs. \<not> overlapped e) \<longrightarrow> sorted_wrt (<) (admitted s))"
proof -
  define s where "s = run (new_encoder cpus opts) evs"
  have "fifo_inv s"
    unfolding s_def by (rule run_invariant) (simp_all add: new_encoder_fifo step_fifo)
  then have eq: "map vid (launched s) @ map vid (queue s) = [0..<allocated s]"
    by (simp add: fifo_inv_def)
  have len: "length (launched s) \<le> allocated s"
    using arg_cong [OF eq, of length] by simp
  then have "[0..<allocated s] = [0..<length (launched s)] @ [length (launched s)..<allocated s]"
    by (metis le_add_diff_inverse upt_add_eq_append zero_le)
  with eq have fifo: "map vid (launched s) = [0..<length (launched s)] \<and>
     map vid (queue s) = [length (launched s)..<allocated s]"
    by (simp add: append_eq_append_conv)
  have "admission_inv s"
    unfolding s_def by (rule run_invariant) (simp_all add: new_encoder_admission step_admission)
  then have adm: "length (admitted s) = allocated s" by (simp add: admission_inv_def)
  have "sorted_wrt (<) (admitted s)" if no: "\<forall>e\<in>set evs. \<not> overlapped e"
  proof -
    have "admission_inv s \<and> in_call_order s"
      unfolding s_def
    proof (rule run_invariant [where P = "\<lambda>t. admission_inv t \<and> in_call_order t"])
      show "admission_inv (new_encoder cpus opts) \<and> in_call_order (new_encoder cpus opts)"
        by (simp add: new_encoder_admission)
    next
      fix t e
      assume "admission_inv t \<and> in_call_order t" "e \<in> set evs"
      then show "admission_inv (step t e) \<and> in_call_order (step t e)"
        using no step_admission [of t e] step_call_order [of t e] by auto
    qed
    then show ?thesis by (simp add: in_call_order_def)
  qed
  then show ?thesis using fifo adm by (simp add: s_def Let_def)
qed

theorem dispatch_is_fifo_witness:
  "\<not> overlapped (AddVideo ''a.mkv'' True) \<and> \<not> overlapped (AddVideo ''b.mkv'' True) \<and>
   \<not> overlapped (Start 10) \<and>
   map vid (launched two_in_flight) = [0..<2] \<and> map vid (queue two_in_flight) = [] \<and>
   admitted two_in_flight = [0, 1] \<and> sorted_wrt (<) (admitted two_in_flight)"
  using dispatch_is_fifo [where cpus = 8 and opts = two_jobs_options
      and evs = "[AddVideo ''a.mkv'' True, AddVideo ''b.mkv'' True, Start 10]",
      unfolded Let_def, folded two_in_flight_def]
  by (simp add: two_in_flight_more two_in_flight_admitted)

text \<open>The claim as written fails for two calls that overlap: \<open>addVideo\<close> is called for
  \<open>a.mkv\<close> and then for \<open>b.mkv\<close>, the access check of the second call returns first, and
  \<open>b.mkv\<close> is enqueued and dispatched before \<open>a.mkv\<close>.\<close>

theorem overlapping_calls_counterexample:
  "map path (launched overlapped_calls) = [''b.mkv'', ''a.mkv''] \<and>
   admitted overlapped_calls = [1, 0]"
  by (simp add: overlapped_calls_fields)

section \<open>Admission: \<open>addVideo\<close>\<close>

text \<open>
  C5. For every path, \<open>addVideo\<close> either fails when the file is not readable, and then
  the encoder is left exactly as it was (nothing is enqueued), or it appends exactly one
  new record for that path to the tail of the pending queue and changes nothing else
  (but the count of created jobs).
\<close>

theorem addVideo_admission:
  "(\<not> readable \<longrightarrow> addVideo p readable s = (Inl AccessError, s)) \<and>
   (readable \<longrightarrow>
      (\<exists>v. addVideo p readable s =
             (Inr v, s\<lparr>queue := queue s @ [v], allocated := Suc (allocated s)\<rparr>) \<and>
           path v = p \<and> vid v = allocated s))"
  by (simp add: addVideo_def Let_def)

theorem addVideo_admission_witness:
  "addVideo ''missing.mkv'' False one_in_flight = (Inl AccessError, one_in_flight) \<and>
   map path (queue (snd (addVideo ''b.mkv'' True one_in_flight))) = [''b.mkv'']"
proof -
  have "addVideo ''missing.mkv'' False one_in_flight = (Inl AccessError, one_in_flight)"
    using addVideo_admission [of False "''missing.mkv''" one_in_flight] by simp
  moreover have "map path (queue (snd (addVideo ''b.mkv'' True one_in_flight))) = [''b.mkv'']"
    using addVideo_admission [of True "''b.mkv''" one_in_flight]
    by (auto simp: one_in_flight_fields)
  ultimately show ?thesis by simp
qed

section \<open>Lifecycle calls that are rejected\<close>

text \<open>
  C6, as the code has it. \<open>start()\<close> is rejected exactly when the \<open>running\<close> flag is set,
  that is from the run states Running, Paused and ShuttingDown; \<open>pause()\<close> is rejected
  exactly when the encoder is not running or already paused; \<open>resume()\<close> is rejected
  exactly when it is not paused. Every rejected call returns the encoder unchanged.
\<close>

theorem lifecycle_rejections:
  "(isl (fst (start now s)) \<longleftrightarrow> running s) \<and>
   (running s \<longrightarrow> start now s = (Inl AlreadyRunning, s)) \<and>
   (running s \<longleftrightarrow> spec_runState s \<in> {Running, Paused, ShuttingDown}) \<and>
   (isl (fst (pause s)) \<longleftrightarrow> \<not> running s \<or> paused s) \<and>
   (\<not> running s \<or> paused s \<longrightarrow> pause s = (Inl NotRunningOrPaused, s)) \<and>
   (isl (fst (resume s)) \<longleftrightarrow> \<not> paused s) \<and>
   (\<not> paused s \<longrightarrow> resume s = (Inl NotPaused, s))"
  by (simp add: start_def pause_def resume_def spec_runState_def)

theorem lifecycle_rejections_witness:
  "start 20 one_in_flight = (Inl AlreadyRunning, one_in_flight) \<and>
   pause finished_encoder = (Inl NotRunningOrPaused, finished_encoder) \<and>
   resume one_in_flight = (Inl NotPaused, one_in_flight)"
proof -
  have p: "\<not> paused one_in_flight"
    by (simp add: one_in_flight_def run_def new_encoder_def no_options_def addVideo_call_def addVideo_accessed_def addVideo_def Let_def
      start_def)
  show ?thesis
    using lifecycle_rejections [of 20 one_in_flight] lifecycle_rejections [of 20 finished_encoder] p
    by (simp add: one_in_flight_fields finished_encoder_fields)
qed

text \<open>
  The claim as written fails in the run state Finished: an encoder started on an empty
  queue finishes at once, is no longer Idle, and accepts \<open>start()\<close> again.
\<close>

theorem start_after_finish_counterexample:
  "spec_runState finished_encoder \<noteq> Idle \<and> \<not> isl (fst (start 20 finished_encoder))"
  by (simp add: spec_runState_def finished_encoder_fields start_def)

section \<open>The resource monitor\<close>

text \<open>
  C7. On a sample above the memory threshold the monitor lowers a concurrency limit
  greater than 1 by exactly one; on every other sample it leaves the encoder as it is.
  It never raises the limit and never takes a limit of at least 1 below 1; over any run
  of the encoder the limit never increases.
\<close>

theorem checkMemoryUsage_ratchet:
  "(memoryThreshold s < heapUsed \<and> 1 < maxConcurrentJobs s \<longrightarrow>
      maxConcurrentJobs (checkMemoryUsage heapUsed s) = maxConcurrentJobs s - 1) \<and>
   (\<not> (memoryThreshold s < heapUsed \<and> 1 < maxConcurrentJobs s) \<longrightarrow>
      checkMemoryUsage heapUsed s = s) \<and>
   maxConcurrentJobs (checkMemoryUsage heapUsed s) \<le> maxConcurrentJobs s \<and>
   (1 \<le> maxConcurrentJobs s \<longrightarrow> 1 \<le> maxConcurrentJobs (checkMemoryUsage heapUsed s)) \<and>
   maxConcurrentJobs (run s evs) \<le> maxConcurrentJobs s"
  by (auto simp: checkMemoryUsage_def run_limit_le)

theorem checkMemoryUsage_ratchet_witness:
  "maxConcurrentJobs (checkMemoryUsage 2000000000 two_in_flight) = 1 \<and>
   checkMemoryUsage 2000000000 (checkMemoryUsage 2000000000 two_in_flight) =
     checkMemoryUsage 2000000000 two_in_flight \<and>
   checkMemoryUsage 5 two_in_flight = two_in_flight"
proof -
  let ?t = "checkMemoryUsage 2000000000 two_in_flight"
  have a: "maxConcurrentJobs ?t = 1"
    using checkMemoryUsage_ratchet [of two_in_flight 2000000000 "[]"]
    by (simp add: two_in_flight_fields)
  have b: "checkMemoryUsage 2000000000 ?t = ?t"
    using checkMemoryUsage_ratchet [of ?t 2000000000 "[]"] a by simp
  have c: "checkMemoryUsage 5 two_in_flight = two_in_flight"
    using checkMemoryUsage_ratchet [of two_in_flight 5 "[]"]
    by (simp add: two_in_flight_fields)
  show ?thesis using a b c by simp
qed

section \<open>The final report\<close>

text \<open>
  C8, as the code has it. When no video has finished, \<open>finish()\<close> returns, skips the
  summary block altogether (so it divides nothing and reports no compression ratio),
  and emits the \<open>finished\<close> event with a processed count of 0.
\<close>

theorem finish_without_finished_videos:
  "finishedVideos s = [] \<Longrightarrow>
     fr_summary (fst (finish now s)) = None \<and>
     fr_processed (fst (finish now s)) = 0 \<and>
     fr_failed (fst (finish now s)) = length (failedVideos s) \<and>
     fr_metrics (fst (finish now s)) = metrics s \<and>
     \<not> running (snd (finish now s))"
  by (simp add: finish_def Let_def)

theorem finish_without_finished_videos_witness:
  "finishedVideos (new_encoder 8 no_options) = [] \<and>
   fr_summary (fst (finish 10 (new_encoder 8 no_options))) = None \<and>
   fr_processed (fst (finish 10 (new_encoder 8 no_options))) = 0"
proof -
  have e: "finishedVideos (new_encoder 8 no_options) = []"
    by (simp add: new_encoder_def Let_def)
  show ?thesis using e finish_without_finished_videos [OF e, of 10] by simp
qed

text \<open>The claim as written fails on a fresh encoder: no ratio 0 is reported.\<close>

theorem finish_zero_ratio_counterexample:
  "map_option sm_avgCompressionRatio (fr_summary (fst (finish 10 (new_encoder 8 no_options))))
     \<noteq> Some (Fin 0)"
  by (simp add: finish_def Let_def new_encoder_def)

section \<open>The average processing time\<close>

text \<open>
  C9, as the code has it. In every run, the number of files processed is the number n of
  finished videos, and the stored average processing time is the result of the n
  incremental updates \<open>((mean * (k - 1)) + x) / k\<close>, for k from 1 to n, over the
  processing times in the order of completion, each operation rounding to a double: it
  is not recomputed from the history. Over exact arithmetic that update equals the
  specification's \<open>mean + (x - mean) / n\<close>, and the n updates yield the arithmetic mean.
\<close>

theorem average_is_mean:
  "let s = run (new_encoder cpus opts) evs; xs = map fe_processingTime (finishedVideos s) in
     totalFilesProcessed (metrics s) = length xs \<and>
     averageProcessingTime (metrics s) = stored_average xs \<and>
     (xs \<noteq> [] \<longrightarrow> exact_average xs = of_int (sum_list xs) / of_nat (length xs)) \<and>
     (\<forall>avg n x. fst (exact_step (avg, n) x) = avg + (of_int x - avg) / of_nat (Suc n))"
proof -
  define s where "s = run (new_encoder cpus opts) evs"
  define xs where "xs = map fe_processingTime (finishedVideos s)"
  have m: "(averageProcessingTime (metrics s), totalFilesProcessed (metrics s)) =
       foldl average_step (0, 0) xs"
    using run_metrics [of cpus opts evs] by (simp add: metrics_inv_def s_def xs_def)
  have "totalFilesProcessed (metrics s) = length xs"
    using arg_cong [OF m, of snd] average_fold_count [of 0 0 xs] by simp
  moreover have "averageProcessingTime (metrics s) = stored_average xs"
    using arg_cong [OF m, of fst] by (simp add: stored_average_def)
  ultimately show ?thesis
    unfolding Let_def s_def [symmetric] xs_def [symmetric]
    using exact_average_mean [of xs] exact_step_incremental by blast
qed

theorem average_is_mean_witness:
  "map fe_processingTime (finishedVideos two_done) \<noteq> [] \<and>
   averageProcessingTime (metrics two_done) = stored_average [30, 60] \<and>
   exact_average [30, 60] = 45"
proof -
  note t = average_is_mean [where cpus = 8 and opts = two_jobs_options and evs =
      "[AddVideo ''a.mkv'' True, AddVideo ''b.mkv'' True, Start 10,
        Resolved 0 40 (Some 100) (Some 50), Resolved 1 70 (Some 200) (Some 100)]",
      unfolded Let_def, folded two_done_def, unfolded two_done_times]
  have "exact_average [30, 60] = of_int (sum_list [30, 60]) / of_nat (length [30, 60 :: int])"
    using t by blast
  then have "exact_average [30, 60] = 45" by simp
  then show ?thesis using t by (simp add: two_done_times)
qed

text \<open>The claim as written fails in doubles: after eight successes with the processing
  times 3, 7, 1, 7, 3, 5, 3, 1 the stored average is 3.7500000000000004, while their mean
  3.75 is a double.\<close>

theorem rounded_average_counterexample:
  "averageProcessingTime (metrics eight_done) \<noteq>
     of_int (sum_list (map fe_processingTime (finishedVideos eight_done))) /
       of_nat (length (finishedVideos eight_done))"
proof -
  have "metrics_inv eight_done"
    unfolding eight_done_def by (rule run_metrics)
  then have "averageProcessingTime (metrics eight_done) = stored_average eight_times"
    by (simp add: metrics_inv_def eight_done_times stored_average_def split: prod.splits)
       (metis fst_conv)
  then have a: "averageProcessingTime (metrics eight_done) = 8444249301319681 / 2251799813685248"
    by (simp add: stored_average_eight eight_times_def)
  have l: "length (finishedVideos eight_done) = 8"
    using arg_cong [OF eight_done_times, of length] by (simp add: eight_times_def)
  show ?thesis unfolding a l by (simp add: eight_done_times eight_times_def)
qed

section \<open>The capacity of the metadata cache\<close>

text \<open>
  C10, as the code has it. For a cache constructed with a capacity of at least 1, after
  any sequence of \<open>get\<close>, \<open>set\<close> and \<open>clear\<close> the cache holds at most that many entries,
  each key once. A \<open>set\<close> on a full cache removes the oldest entry (the first in the
  map's order) and then inserts; a \<open>get\<close> that hits moves the entry to the end of the
  order.
\<close>

theorem metadata_cache_bounded:
  assumes "1 \<le> n"
  shows "let c = cache_run (new_cache (Some n)) ops in
     maxSize c = n \<and> int (length (cache c)) \<le> n \<and> distinct (map fst (cache c)) \<and>
     (\<forall>p stt m k0 v0 rest.
        n \<le> int (length (cache c)) \<longrightarrow> cache c = (k0, v0) # rest \<longrightarrow>
        cache (cache_set p (Some stt) m c) = map_set (cacheKey p stt) m rest) \<and>
     (\<forall>p stt v.
        map_of (cache c) (cacheKey p stt) = Some v \<longrightarrow>
        cache_get p (Some stt) c =
          (Some v, c\<lparr>cache := map_delete (cacheKey p stt) (cache c) @ [(cacheKey p stt, v)]\<rparr>))"
proof -
  define c where "c = cache_run (new_cache (Some n) :: 'a metadata_cache) ops"
  have "cache_ok (new_cache (Some n) :: 'a metadata_cache)"
    "maxSize (new_cache (Some n) :: 'a metadata_cache) = n"
    using assms by (simp_all add: new_cache_def cache_ok_def)
  then have ok: "cache_ok c" "maxSize c = n"
    using cache_run_ok [of "new_cache (Some n) :: 'a metadata_cache" ops] assms
    by (simp_all add: c_def)
  then have d: "distinct (map fst (cache c))" and l: "int (length (cache c)) \<le> n"
    by (simp_all add: cache_ok_def)
  show ?thesis
    unfolding Let_def c_def [symmetric]
    using ok d l cache_set_full [of c] cache_get_hit [of c] by auto
qed

theorem metadata_cache_bounded_witness:
  "(1::int) \<le> 2 \<and> int (length (cache full_cache)) \<le> 2 \<and>
   cache (cache_set ''c.mkv'' (Some example_stats) 3 full_cache) =
     [((''b.mkv'', 1700000000000, 4096), 2), ((''c.mkv'', 1700000000000, 4096), 3)] \<and>
   cache (snd (cache_get ''a.mkv'' (Some example_stats) full_cache)) =
     [((''b.mkv'', 1700000000000, 4096), 2), ((''a.mkv'', 1700000000000, 4096), 1)]"
proof -
  have h: "(1::int) \<le> 2" by simp
  note t = metadata_cache_bounded [OF h, of "[CSet ''a.mkv'' (Some example_stats) (1::nat), CSet ''b.mkv'' (Some example_stats) 2]",
      unfolded Let_def, folded full_cache_def]
  have a: "int (length (cache full_cache)) \<le> 2" using t by simp
  have b: "cache (cache_set ''c.mkv'' (Some example_stats) 3 full_cache) =
     [((''b.mkv'', 1700000000000, 4096), 2), ((''c.mkv'', 1700000000000, 4096), 3)]"
    using t full_cache_eval by (simp add: cacheKey_def example_stats_def)
  have c: "cache (snd (cache_get ''a.mkv'' (Some example_stats) full_cache)) =
     [((''b.mkv'', 1700000000000, 4096), 2), ((''a.mkv'', 1700000000000, 4096), 1)]"
    using t full_cache_eval by (simp add: cacheKey_def example_stats_def map_delete_def)
  show ?thesis using a b c by simp
qed

text \<open>The claim as written fails for the capacity 0: one \<open>set\<close> leaves one entry.\<close>

theorem zero_capacity_cache_counterexample:
  "\<not> int (length (cache (cache_run (new_cache (Some 0))
          [CSet ''a.mkv'' (Some example_stats) (1::nat)])))
      \<le> maxSize (cache_run (new_cache (Some 0)) [CSet ''a.mkv'' (Some example_stats) (1::nat)])"
  by (simp add: cache_run_def new_cache_def cache_set_def evict_oldest_def Let_def)

end
